theory Spec2Isabelle
  imports Complex_Main "HOL-Library.Char_ord" "HOL-Library.List_Lexorder"
begin

section \<open>The Python runtime, as far as the scripts use it\<close>

text \<open>
  The coordination scripts are plain Python programs. Text is modelled as \<open>string\<close>
  whose characters stand for the code points below 256; an environment is a finite map
  from names to values; an exception is a value of \<open>exn\<close>, and a computation that may
  raise returns \<open>exn + 'a\<close> with \<open>Inl\<close> for the exception.
\<close>

datatype exn =
    SystemExit int
  | TimeoutError
  | ValueError
  | IndexError
  | ConnectionError
  | OSError
  | OverflowError

type_synonym environ = "string \<rightharpoonup> string"

text \<open>\<^verbatim>\<open>os.environ.get(name, default)\<close>\<close>

definition environ_get :: "environ \<Rightarrow> string \<Rightarrow> string \<Rightarrow> string" where
  "environ_get env name dflt = (case env name of None \<Rightarrow> dflt | Some v \<Rightarrow> v)"

text \<open>
  How the interpreter turns the end of a script into the exit status of the process:
  falling off the end gives 0, \<^verbatim>\<open>sys.exit(n)\<close> (the exception \<open>SystemExit n\<close>, not
  caught) gives \<open>n\<close>, and any other exception that nothing catches prints a traceback
  and gives 1.
\<close>

fun exit_status :: "exn + 'a \<Rightarrow> int" where
  "exit_status (Inr _) = 0"
| "exit_status (Inl (SystemExit n)) = n"
| "exit_status (Inl _) = 1"

subsection \<open>Whitespace and \<^verbatim>\<open>str.strip()\<close>\<close>

text \<open>
  \<^verbatim>\<open>str.isspace\<close> on the code points below 256: tab, line feed, vertical tab, form
  feed, carriage return, the four separators 0x1C--0x1F, space, NEL (0x85) and the
  no-break space (0xA0).
\<close>

definition isspace :: "char \<Rightarrow> bool" where
  "isspace c = (of_char c \<in> {9, 10, 11, 12, 13, 28, 29, 30, 31, 32, 133, 160 :: nat})"

definition strip :: "string \<Rightarrow> string" where
  "strip s = rev (dropWhile isspace (rev (dropWhile isspace s)))"

subsection \<open>Text files\<close>

text \<open>
  The shared directory is a map from paths to file contents. Reading a file opened in
  text mode with the default \<^verbatim>\<open>newline=None\<close> translates \<^verbatim>\<open>\r\n\<close> and a lone
  \<^verbatim>\<open>\r\<close> to \<^verbatim>\<open>\n\<close>; writing on POSIX leaves the text as it is.
\<close>

type_synonym fs = "string \<rightharpoonup> string"

abbreviation LF :: char where "LF \<equiv> CHR 0x0A"
abbreviation CR :: char where "CR \<equiv> CHR 0x0D"

fun universal_newlines :: "string \<Rightarrow> string" where
  "universal_newlines [] = []"
| "universal_newlines [c] = [if c = CR then LF else c]"
| "universal_newlines (c # d # cs) =
     (if c = CR \<and> d = LF then LF # universal_newlines cs
      else if c = CR then LF # universal_newlines (d # cs)
      else c # universal_newlines (d # cs))"

text \<open>\<^verbatim>\<open>os.path.join(a, b)\<close> for two components (POSIX).\<close>

definition path_join :: "string \<Rightarrow> string \<Rightarrow> string" where
  "path_join a b =
     (if b \<noteq> [] \<and> hd b = CHR ''/'' then b
      else if a = [] \<or> last a = CHR ''/'' then a @ b
      else a @ ''/'' @ b)"

subsection \<open>Numbers and text\<close>

text \<open>
  \<^verbatim>\<open>int(s)\<close> for a string: surrounding whitespace is dropped, one sign is allowed,
  and the rest must be decimal digits, where single underscores may stand between
  digits. Anything else raises \<open>ValueError\<close>. (The interpreter's limit on the number
  of digits is not modelled.)
\<close>

definition is_digit :: "char \<Rightarrow> bool" where
  "is_digit c = (48 \<le> (of_char c :: nat) \<and> (of_char c :: nat) \<le> 57)"

fun digits_ok :: "string \<Rightarrow> bool" where
  "digits_ok [] = False"
| "digits_ok [c] = is_digit c"
| "digits_ok (c # d # cs) =
     (is_digit c \<and> (if d = CHR ''_'' then digits_ok cs else digits_ok (d # cs)))"

definition digits_value :: "string \<Rightarrow> nat" where
  "digits_value s = foldl (\<lambda>acc c. 10 * acc + (of_char c - 48)) 0 (filter is_digit s)"

definition py_int :: "string \<Rightarrow> exn + int" where
  "py_int s =
     (let t = strip s;
          negative = (t \<noteq> [] \<and> hd t = CHR ''-'');
          body = (if t \<noteq> [] \<and> (hd t = CHR ''-'' \<or> hd t = CHR ''+'') then tl t else t)
      in if digits_ok body
         then Inr (if negative then - int (digits_value body) else int (digits_value body))
         else Inl ValueError)"

text \<open>\<^verbatim>\<open>str(n)\<close> for an integer.\<close>

function str_nat :: "nat \<Rightarrow> string" where
  "str_nat n = (if n < 10 then [char_of (48 + n)]
                else str_nat (n div 10) @ [char_of (48 + n mod 10)])"
  by pat_completeness auto
termination
  by (relation "measure id") auto

declare str_nat.simps [simp del]

function decimal :: "int \<Rightarrow> string" where
  "decimal i = (if i < 10 then [char_of (48 + i)]
                else decimal (i div 10) @ [char_of (48 + i mod 10)])"
  by pat_completeness auto
termination
  by (relation "measure nat") auto

declare decimal.simps [simp del]

definition str_int :: "int \<Rightarrow> string" where
  "str_int i = (if i < 0 then ''-'' @ decimal (- i) else decimal i)"

subsection \<open>Floats\<close>

text \<open>
  A Python float is an IEEE double: a rational that 53 significant bits can hold, or an
  infinity. (There is no not-a-number and no negative zero here: neither arises from
  the subtraction and the addition of finite doubles that the scripts perform.) The
  result of an operation is the exact result rounded to the nearest double, a tie going
  to the even mantissa, and an infinity beyond the largest double:
  \<open>ilog2 x\<close> is the binary exponent of a positive \<open>x\<close>, and below exponent \<open>-1022\<close>
  the doubles are the multiples of \<open>pow2 (- 1074)\<close>.
\<close>

definition round_half_even :: "rat \<Rightarrow> int" where
  "round_half_even x =
     (let f = \<lfloor>x\<rfloor>; d = x - of_int f
      in if d < 1 / 2 then f else if 1 / 2 < d then f + 1
         else if even f then f else f + 1)"

function bit_length :: "int \<Rightarrow> nat" where
  "bit_length n = (if n \<le> 0 then 0 else Suc (bit_length (n div 2)))"
  by pat_completeness auto
termination
  by (relation "measure nat") auto

declare bit_length.simps [simp del]

definition ilog2 :: "rat \<Rightarrow> int" where
  "ilog2 x = (if 1 \<le> x then int (bit_length \<lfloor>x\<rfloor>) - 1
              else - int (bit_length (\<lceil>1 / x\<rceil> - 1)))"

definition pow2 :: "int \<Rightarrow> rat" where
  "pow2 k = (if 0 \<le> k then 2 ^ nat k else 1 / 2 ^ nat (- k))"

datatype pyfloat = Finite rat | PosInf | NegInf

definition round_to_double :: "rat \<Rightarrow> pyfloat" where
  "round_to_double x =
     (if x = 0 then Finite 0
      else
        (let e = max (ilog2 \<bar>x\<bar>) (- 1022);
             q = pow2 (e - 52);
             m = round_half_even (x / q)
         in if 1023 < e \<or> (e = 1023 \<and> \<bar>m\<bar> = 2 ^ 53)
            then (if x < 0 then NegInf else PosInf)
            else Finite (of_int m * q)))"

text \<open>A rational is a double when rounding leaves it as it is.\<close>

definition is_double :: "rat \<Rightarrow> bool" where
  "is_double x = (round_to_double x = Finite x)"

text \<open>
  \<^verbatim>\<open>a - b\<close> for two finite floats; \<^verbatim>\<open>float(n)\<close> for an integer, which raises
  \<open>OverflowError\<close> when \<open>n\<close> is too large for a double; \<^verbatim>\<open>n + x\<close> for an integer
  and a float, which converts the integer first.
\<close>

definition float_sub :: "rat \<Rightarrow> rat \<Rightarrow> pyfloat" where
  "float_sub a b = round_to_double (a - b)"

definition float_of_int :: "int \<Rightarrow> exn + rat" where
  "float_of_int n =
     (case round_to_double (of_int n) of
        Finite a \<Rightarrow> Inr a
      | PosInf \<Rightarrow> Inl OverflowError
      | NegInf \<Rightarrow> Inl OverflowError)"

fun float_add :: "rat \<Rightarrow> pyfloat \<Rightarrow> pyfloat" where
  "float_add a (Finite b) = round_to_double (a + b)"
| "float_add a PosInf = PosInf"
| "float_add a NegInf = NegInf"

definition int_add_float :: "int \<Rightarrow> pyfloat \<Rightarrow> exn + pyfloat" where
  "int_add_float n x =
     (case float_of_int n of
        Inl e \<Rightarrow> Inl e
      | Inr a \<Rightarrow> Inr (float_add a x))"

text \<open>
  The format \<^verbatim>\<open>{x:.0f}\<close>: the nearest integer, a tie going to the even neighbour,
  with the sign of \<open>x\<close> in front.
\<close>

fun format_0f :: "pyfloat \<Rightarrow> string" where
  "format_0f (Finite x) =
     (if x < 0 then ''-'' else []) @ decimal (round_half_even \<bar>x\<bar>)"
| "format_0f PosInf = ''inf''"
| "format_0f NegInf = ''-inf''"

subsection \<open>Standard output\<close>

text \<open>
  The standard output of a process: the stream object may have been closed; the device
  behind it may refuse writes (a full disk, a pipe without a reader); a buffer of
  \<open>buffer_size\<close> characters holds the lines not yet handed to the device (size 0 when
  the interpreter runs unbuffered). \<^verbatim>\<open>print\<close> on a closed stream raises
  \<open>ValueError\<close>. On an open one the line, with its line feed, goes into the buffer
  when it fits; otherwise the buffer is written out first, and the line is buffered when
  it fits the empty buffer and written through when it does not. A write that the
  device refuses raises \<open>OSError\<close>: the buffer keeps what it held and the line is lost.
\<close>

record ostream =
  stream_closed :: bool
  device_ok :: bool
  buffer_size :: nat
  pending :: "string list"
  written :: "string list"

definition buffered_chars :: "string list \<Rightarrow> nat" where
  "buffered_chars ls = sum_list (map (\<lambda>l. length l + 1) ls)"

definition py_print :: "ostream \<Rightarrow> string \<Rightarrow> exn + ostream" where
  "py_print out line =
     (if stream_closed out then Inl ValueError
      else if buffered_chars (pending out) + length line + 1 \<le> buffer_size out
        then Inr (out\<lparr>pending := pending out @ [line]\<rparr>)
      else if \<not> device_ok out then Inl OSError
      else if length line + 1 \<le> buffer_size out
        then Inr (out\<lparr>written := written out @ pending out, pending := [line]\<rparr>)
      else Inr (out\<lparr>written := written out @ pending out @ [line], pending := []\<rparr>))"

text \<open>
  When the interpreter exits it flushes standard output unless the stream object is
  closed. The result tells whether the flush went through; a flush with nothing in the
  buffer writes nothing and cannot fail.
\<close>

definition flush_at_exit :: "ostream \<Rightarrow> bool \<times> ostream" where
  "flush_at_exit out =
     (if stream_closed out \<or> pending out = [] then (True, out)
      else if device_ok out
        then (True, out\<lparr>written := written out @ pending out, pending := []\<rparr>)
      else (False, out))"

text \<open>
  The exit status of a process that ends with \<open>r\<close> and standard output \<open>out\<close>: the
  status of \<open>r\<close>, replaced by 120 when the flush at exit fails.
\<close>

definition process_exit :: "exn + 'a \<Rightarrow> ostream \<Rightarrow> int \<times> ostream" where
  "process_exit r out =
     (case flush_at_exit out of
        (flushed, out') \<Rightarrow> (if flushed then exit_status r else 120, out'))"

text \<open>
  \<^verbatim>\<open>a in b\<close> for two strings: \<open>a\<close> occurs in \<open>b\<close> as a contiguous piece.
\<close>

fun is_prefix :: "string \<Rightarrow> string \<Rightarrow> bool" where
  "is_prefix [] ys = True"
| "is_prefix (x # xs) [] = False"
| "is_prefix (x # xs) (y # ys) = (x = y \<and> is_prefix xs ys)"

fun str_in :: "string \<Rightarrow> string \<Rightarrow> bool" where
  "str_in a [] = (a = [])"
| "str_in a (y # ys) = (is_prefix a (y # ys) \<or> str_in a ys)"

section \<open>tier3-multinode-ray/coordinator.py: the shared record files\<close>

definition SLURM_JOB_ID :: "environ \<Rightarrow> string" where
  "SLURM_JOB_ID env = environ_get env ''SLURM_JOB_ID'' ''0''"

definition SHARED_DIR :: string where
  "SHARED_DIR = ''/scratch/abs6bd/.rv/ray_cluster''"

definition ADDR_FILE :: "environ \<Rightarrow> string" where
  "ADDR_FILE env = path_join SHARED_DIR (SLURM_JOB_ID env @ ''.addr'')"

definition DONE_FILE :: "environ \<Rightarrow> string" where
  "DONE_FILE env = path_join SHARED_DIR (SLURM_JOB_ID env @ ''.done'')"

text \<open>
  \<^verbatim>\<open>write_file(path, content)\<close>: the directory is created when missing, the file is
  opened with mode \<^verbatim>\<open>"w"\<close> and the content written. The model is the file system
  once the \<^verbatim>\<open>with\<close> block has closed the file.
\<close>

definition write_file :: "fs \<Rightarrow> string \<Rightarrow> string \<Rightarrow> fs" where
  "write_file files path content = files(path \<mapsto> content)"

text \<open>
  One round of the loop of \<^verbatim>\<open>poll_file\<close>: when the path exists its text is read and
  stripped, and only a non-empty result is returned.
\<close>

definition poll_once :: "fs \<Rightarrow> string \<Rightarrow> string option" where
  "poll_once files path =
     (case files path of
        None \<Rightarrow> None
      | Some raw \<Rightarrow>
          (let content = strip (universal_newlines raw)
           in if content \<noteq> [] then Some content else None))"

text \<open>
  \<^verbatim>\<open>poll_file(path, timeout=120, interval=2)\<close>. The clock is a rational number of
  seconds; \<open>store t\<close> is the shared directory as the other processes have left it at
  time \<open>t\<close>. \<^verbatim>\<open>time.sleep(interval)\<close> moves the clock on by \<open>interval\<close> and raises
  \<open>ValueError\<close> for a negative argument; the other statements take no time. The result
  carries the clock at which the call ends. With \<open>interval = 0\<close> the modelled clock
  stands still and the loop need not end, hence the option type: \<open>None\<close> is a call that
  never returns.
\<close>

partial_function (option) poll_loop ::
  "(rat \<Rightarrow> fs) \<Rightarrow> string \<Rightarrow> rat \<Rightarrow> rat \<Rightarrow> rat \<Rightarrow> ((exn + string) \<times> rat) option" where
  "poll_loop store path deadline interval now =
     (if now < deadline then
        (case poll_once (store now) path of
           Some content \<Rightarrow> Some (Inr content, now)
         | None \<Rightarrow>
             if interval < 0 then Some (Inl ValueError, now)
             else poll_loop store path deadline interval (now + interval))
      else Some (Inl TimeoutError, now))"

declare poll_loop.simps [code]

definition poll_file ::
  "(rat \<Rightarrow> fs) \<Rightarrow> string \<Rightarrow> rat \<Rightarrow> rat \<Rightarrow> rat \<Rightarrow> ((exn + string) \<times> rat) option" where
  "poll_file store path timeout interval now =
     poll_loop store path (now + timeout) interval now"

subsection \<open>The worker\<close>

text \<open>
  \<^verbatim>\<open>run_worker()\<close>. \<open>ray_init addr\<close> stands for \<^verbatim>\<open>ray.init(address=addr, ...)\<close>:
  the exception it raises, or the seconds it takes. The progress lines the worker
  prints are left out. The first \<^verbatim>\<open>poll_file\<close> stands outside any \<^verbatim>\<open>try\<close>; the
  second one is inside \<^verbatim>\<open>try ... except TimeoutError\<close>.
\<close>

definition run_worker ::
  "environ \<Rightarrow> (rat \<Rightarrow> fs) \<Rightarrow> (string \<Rightarrow> exn + rat) \<Rightarrow> rat \<Rightarrow> (exn + unit) option" where
  "run_worker env store ray_init now =
     (case poll_file store (ADDR_FILE env) 120 2 now of
        None \<Rightarrow> None
      | Some (Inl e, t) \<Rightarrow> Some (Inl e)
      | Some (Inr head_addr, t) \<Rightarrow>
          (case ray_init head_addr of
             Inl e \<Rightarrow> Some (Inl e)
           | Inr d \<Rightarrow>
               (case poll_file store (DONE_FILE env) 600 5 (t + d) of
                  None \<Rightarrow> None
                | Some (Inl e, t') \<Rightarrow>
                    if e = TimeoutError then Some (Inr ()) else Some (Inl e)
                | Some (Inr done, t') \<Rightarrow> Some (Inr ()))))"

subsection \<open>Start-up and the entry point\<close>

text \<open>
  The module reads its configuration when it is loaded, in this order, and an
  \<^verbatim>\<open>int(...)\<close> that raises ends the process there. The entry point then branches on
  \<^verbatim>\<open>SLURM_PROCID == 0\<close>.
\<close>

definition SLURM_PROCID :: "environ \<Rightarrow> exn + int" where
  "SLURM_PROCID env = py_int (environ_get env ''SLURM_PROCID'' ''0'')"

definition NUM_GPUS_PER_NODE :: "environ \<Rightarrow> exn + int" where
  "NUM_GPUS_PER_NODE env = py_int (environ_get env ''SLURM_GPUS_ON_NODE'' ''2'')"

datatype entry = RunHead | RunWorker

definition coordinator_main :: "environ \<Rightarrow> exn + entry" where
  "coordinator_main env =
     (case SLURM_PROCID env of
        Inl e \<Rightarrow> Inl e
      | Inr procid \<Rightarrow>
          (case NUM_GPUS_PER_NODE env of
             Inl e \<Rightarrow> Inl e
           | Inr gpus \<Rightarrow> Inr (if procid = 0 then RunHead else RunWorker)))"

subsection \<open>The head's view of the cluster\<close>

text \<open>
  A node as \<^verbatim>\<open>ray.nodes()\<close> reports it: the \<^verbatim>\<open>Alive\<close> flag and the \<^verbatim>\<open>NodeName\<close>
  entry, which may be missing. \<^verbatim>\<open>run_head\<close> sorts the set of names of the nodes
  that are alive and calls the cluster multi-node when more than one name is left.
\<close>

record ray_node =
  alive :: bool
  node_name :: "string option"

definition node_hostnames :: "ray_node list \<Rightarrow> string list" where
  "node_hostnames nodes =
     sort (remdups (map (\<lambda>n. case node_name n of None \<Rightarrow> ''unknown'' | Some h \<Rightarrow> h)
                        (filter alive nodes)))"

definition head_is_multi_node :: "ray_node list \<Rightarrow> bool" where
  "head_is_multi_node nodes = (1 < length (remdups (node_hostnames nodes)))"

section \<open>tier2-multinode-ddp/train.py: the topology check\<close>

text \<open>
  The dictionary \<^verbatim>\<open>results\<close> that rank 0 fills in; the other ranks return the empty
  dictionary, which is \<open>None\<close> here.
\<close>

record topology =
  unique_hosts :: nat
  hostnames :: "string list"
  is_multi_node :: bool
  master_addr :: string
  master_addr_correct :: bool

text \<open>
  \<^verbatim>\<open>check_topology(rank, world_size, local_rank)\<close> after the all-gather: \<open>gathered\<close>
  is the list \<^verbatim>\<open>hostnames\<close> the function has decoded from the gathered tensors, one
  name for each rank in rank order. The result is the dictionary and the verdict lines
  rank 0 prints (the lines that only list values are left out). \<^verbatim>\<open>hostnames[0]\<close>
  raises \<open>IndexError\<close> on an empty list.
\<close>

definition check_topology ::
  "nat \<Rightarrow> string list \<Rightarrow> environ \<Rightarrow> exn + (topology option \<times> string list)" where
  "check_topology rank gathered env =
     (let maddr = environ_get env ''MASTER_ADDR'' ''NOT SET''
      in if rank = 0 then
           (let unique = sort (remdups gathered)
            in case gathered of
                 [] \<Rightarrow> Inl IndexError
               | rank0_host # rest \<Rightarrow>
                   (let correct = (str_in maddr rank0_host \<or> str_in rank0_host maddr);
                        verdict1 =
                          (if correct then [''  MASTER_ADDR matches rank 0 host: PASSED'']
                           else [''  MASTER_ADDR='' @ maddr @ '' vs rank0_host='' @ rank0_host
                                 @ '': FAILED'']);
                        verdict2 =
                          (if 1 < length unique
                           then [''  Multi-node allocation: PASSED (''
                                 @ str_nat (length unique) @ '' nodes)'']
                           else [''  WARNING: Single-node allocation (4 GPUs on 1 node)'',
                                 ''  Cross-node NCCL not tested in this run''])
                    in Inr (Some \<lparr>unique_hosts = length unique,
                                  hostnames = unique,
                                  is_multi_node = (1 < length unique),
                                  master_addr = maddr,
                                  master_addr_correct = correct\<rparr>,
                            verdict1 @ verdict2)))
         else Inr (None, []))"

subsection \<open>The self-report loop\<close>

text \<open>
  Every rank runs
  \<^verbatim>\<open>for r in range(world_size): if rank == r: print(...); flush; dist.barrier()\<close>.
  A rank is either at the top of round \<open>r\<close> (\<open>Round r\<close>) or blocked inside the barrier
  of round \<open>r\<close> (\<open>InBarrier r\<close>). \<open>dist.barrier()\<close> lets no rank go on before every
  rank has entered it: the entry of the last rank releases all of them, which the
  shared log records as \<open>Crossed\<close>. \<open>Report p\<close> is the line rank \<open>p\<close> prints.
\<close>

datatype event = Report nat | Crossed

datatype position = Round nat | InBarrier nat

record ranks =
  positions :: "position list"
  shared_log :: "event list"

definition start_ranks :: "nat \<Rightarrow> ranks" where
  "start_ranks world_size =
     \<lparr>positions = replicate world_size (Round 0), shared_log = []\<rparr>"

text \<open>
  Rank \<open>p\<close> is scheduled: at the top of a round it prints when the round is its own
  and enters the barrier; inside a barrier, or after the loop, nothing happens.
\<close>

definition rank_step :: "nat \<Rightarrow> ranks \<Rightarrow> nat \<Rightarrow> ranks" where
  "rank_step world_size w p =
     (if p < length (positions w) then
        (case positions w ! p of
           InBarrier r \<Rightarrow> w
         | Round r \<Rightarrow>
             if r < world_size then
               (let printed = (if p = r then shared_log w @ [Report p] else shared_log w);
                    entered = (positions w)[p := InBarrier r]
                in if list_all (\<lambda>q. q = InBarrier r) entered
                   then \<lparr>positions = map (\<lambda>q. Round (Suc r)) entered,
                         shared_log = printed @ [Crossed]\<rparr>
                   else \<lparr>positions = entered, shared_log = printed\<rparr>)
             else w)
      else w)"

text \<open>A run of the loop on all ranks under a schedule (the ranks in the order they move).\<close>

definition run_ranks :: "nat \<Rightarrow> nat list \<Rightarrow> ranks" where
  "run_ranks world_size schedule = foldl (rank_step world_size) (start_ranks world_size) schedule"

section \<open>workloads/test-checkpoint-restart/long_train.py: the segment and its signals\<close>

text \<open>
  The module variables set at start-up: the prior elapsed time and the requested total
  from the environment, and the clock at the start of the segment.
\<close>

record segment =
  total_elapsed :: int
  total_requested :: int
  segment_start :: rat

definition start_segment :: "environ \<Rightarrow> rat \<Rightarrow> exn + segment" where
  "start_segment env now =
     (case py_int (environ_get env ''RV_TOTAL_ELAPSED'' ''0'') of
        Inl e \<Rightarrow> Inl e
      | Inr prior \<Rightarrow>
          (case py_int (environ_get env ''RV_TOTAL_REQUESTED'' ''600'') of
             Inl e \<Rightarrow> Inl e
           | Inr requested \<Rightarrow>
               Inr \<lparr>total_elapsed = prior, total_requested = requested,
                    segment_start = now\<rparr>))"

text \<open>
  \<^verbatim>\<open>handle_signal(signum, frame)\<close>, entered with the clock at \<open>now\<close>: the elapsed
  time is the difference of two floats; the first line is printed; the total is the
  integer \<^verbatim>\<open>total_elapsed\<close> plus the float \<^verbatim>\<open>elapsed\<close>, which raises
  \<open>OverflowError\<close> for an integer too large for a double; the second line is printed
  and \<^verbatim>\<open>sys.exit(1)\<close> is called. The handler never returns normally; the result is
  the exception it ends with and the stream as it leaves it.
\<close>

definition handle_signal :: "segment \<Rightarrow> int \<Rightarrow> rat \<Rightarrow> ostream \<Rightarrow> exn \<times> ostream" where
  "handle_signal seg signum now out =
     (let elapsed = float_sub now (segment_start seg)
      in case py_print out (''Received signal '' @ str_int signum @ '' after ''
                            @ format_0f elapsed @ ''s in this segment'') of
           Inl e \<Rightarrow> (e, out)
         | Inr out1 \<Rightarrow>
             (case int_add_float (total_elapsed seg) elapsed of
                Inl e \<Rightarrow> (e, out1)
              | Inr total_float \<Rightarrow>
                  (case py_print out1 (''Total elapsed: '' @ format_0f total_float
                                       @ ''s / '' @ str_int (total_requested seg) @ ''s'') of
                     Inl e \<Rightarrow> (e, out1)
                   | Inr out2 \<Rightarrow> (SystemExit 1, out2))))"

text \<open>
  The handler is installed for \<^verbatim>\<open>SIGUSR1\<close> and \<^verbatim>\<open>SIGTERM\<close> (numbers 10 and 15 on
  Linux). The main loop has no \<^verbatim>\<open>try\<close>, so the exception the handler ends with
  ends the process: \<open>on_signal\<close> is the exit status and the standard output of a
  process that receives the signal at clock \<open>now\<close>, after the flush at exit.
\<close>

datatype signal = SIGUSR1 | SIGTERM

fun signal_number :: "signal \<Rightarrow> int" where
  "signal_number SIGUSR1 = 10"
| "signal_number SIGTERM = 15"

definition on_signal :: "segment \<Rightarrow> signal \<Rightarrow> rat \<Rightarrow> ostream \<Rightarrow> int \<times> ostream" where
  "on_signal seg sig now out =
     (case handle_signal seg (signal_number sig) now out of
        (e, out') \<Rightarrow> process_exit (Inl e :: exn + unit) out')"

text \<open>
  The exit status that asks for resubmission: the argument of \<^verbatim>\<open>sys.exit(1)\<close> in the
  handler (``Non-zero exit triggers resubmission'').
\<close>

definition resume_code :: int where
  "resume_code = 1"

section \<open>Specification predicates\<close>

text \<open>
  What a call of \<open>poll_loop\<close> that has ended can have returned: a value is what one
  round read at the clock it carries, before the deadline; an exception is the
  \<open>ValueError\<close> of the sleep or the \<open>TimeoutError\<close> of the loop's end.
\<close>

definition poll_post ::
  "(rat \<Rightarrow> fs) \<Rightarrow> string \<Rightarrow> rat \<Rightarrow> rat \<Rightarrow> (exn + string) \<times> rat \<Rightarrow> bool" where
  "poll_post store path deadline now y =
     (case y of
        (Inr c, t) \<Rightarrow> poll_once (store t) path = Some c \<and> now \<le> t \<and> t < deadline
      | (Inl e, t) \<Rightarrow> e = ValueError \<or> e = TimeoutError)"

text \<open>
  The shared log of the self-report loop when the rounds \<open>i, \<dots>, n - 1\<close> are
  complete, and the invariant of a run: all ranks are in the same round \<open>k\<close>, at its
  top or inside its barrier, and the log holds the complete rounds below \<open>k\<close> and the
  report of rank \<open>k\<close> once that rank is inside the barrier.
\<close>

definition rounds_log :: "nat \<Rightarrow> nat \<Rightarrow> event list" where
  "rounds_log i n = concat (map (\<lambda>j. [Report j, Crossed]) [i..<n])"

definition ranks_inv :: "nat \<Rightarrow> ranks \<Rightarrow> bool" where
  "ranks_inv world_size w =
     (\<exists>k. k \<le> world_size \<and> length (positions w) = world_size \<and>
          list_all (\<lambda>q. q = Round k \<or> q = InBarrier k) (positions w) \<and>
          shared_log w = rounds_log 0 k @
            (if k < world_size \<and> positions w ! k = InBarrier k then [Report k] else []))"

text \<open>
  The grid of the smallest doubles: every double is a whole multiple of
  \<open>pow2 (- 1074)\<close>, and so is every sum or difference of doubles and integers.
\<close>

definition on_grid :: "rat \<Rightarrow> bool" where
  "on_grid x = (\<exists>k::int. x = of_int k * pow2 (- 1074))"

text \<open>The quantum of the doubles around \<open>x\<close>: half of it bounds the rounding error.\<close>

definition quantum :: "rat \<Rightarrow> rat" where
  "quantum x = pow2 (max (ilog2 \<bar>x\<bar>) (- 1022) - 52)"

section \<open>Facts about the runtime functions\<close>

lemma strip_eq_Nil_iff: "strip s = [] \<longleftrightarrow> (\<forall>c\<in>set s. isspace c)"
proof -
  let ?d = "dropWhile isspace s"
  have "strip s = [] \<longleftrightarrow> (\<forall>x\<in>set ?d. isspace x)"
    by (simp add: strip_def)
  also have "\<dots> \<longleftrightarrow> ?d = []"
  proof
    assume a: "\<forall>x\<in>set ?d. isspace x"
    show "?d = []"
    proof (rule ccontr)
      assume ne: "?d \<noteq> []"
      then have "\<not> isspace (hd ?d)" by (rule hd_dropWhile)
      moreover have "hd ?d \<in> set ?d" using ne by simp
      ultimately show False using a by blast
    qed
  next
    assume "?d = []"
    then show "\<forall>x\<in>set ?d. isspace x" by (simp del: dropWhile_eq_Nil_conv)
  qed
  also have "\<dots> \<longleftrightarrow> (\<forall>c\<in>set s. isspace c)"
    by (simp add: dropWhile_eq_Nil_conv)
  finally show ?thesis .
qed

lemma strip_last:
  assumes "strip s \<noteq> []"
  shows "\<not> isspace (last (strip s))"
proof -
  let ?r = "dropWhile isspace (rev (dropWhile isspace s))"
  from assms have ne: "?r \<noteq> []" by (simp add: strip_def)
  then have "\<not> isspace (hd ?r)" by (rule hd_dropWhile)
  moreover have "last (strip s) = hd ?r" using ne by (simp add: strip_def last_rev)
  ultimately show ?thesis by simp
qed

lemma dropWhile_rev_last:
  "dropWhile P (rev ys) \<noteq> [] \<Longrightarrow> ys \<noteq> [] \<and> last (dropWhile P (rev ys)) = hd ys"
  by (cases ys) (auto simp: dropWhile_append split: if_splits)

lemma strip_hd:
  assumes "strip s \<noteq> []"
  shows "\<not> isspace (hd (strip s))"
proof -
  let ?d = "dropWhile isspace s"
  let ?r = "dropWhile isspace (rev ?d)"
  from assms have ne: "?r \<noteq> []" by (simp add: strip_def)
  then have d: "?d \<noteq> []" and l: "last ?r = hd ?d"
    using dropWhile_rev_last[of isspace ?d] by auto
  have "hd (strip s) = last ?r" using ne by (simp add: strip_def hd_rev)
  moreover have "\<not> isspace (hd ?d)" using d by (rule hd_dropWhile)
  ultimately show ?thesis using l by simp
qed

lemma strip_unchanged:
  assumes "s \<noteq> []" "\<not> isspace (hd s)" "\<not> isspace (last s)"
  shows "strip s = s"
proof -
  from assms have 1: "dropWhile isspace s = s" by (cases s) auto
  from assms have "rev s \<noteq> []" "\<not> isspace (hd (rev s))" by (auto simp: hd_rev)
  then have 2: "dropWhile isspace (rev s) = rev s" by (cases "rev s") auto
  show ?thesis by (simp add: strip_def 1 2)
qed

lemma universal_newlines_unchanged: "CR \<notin> set s \<Longrightarrow> universal_newlines s = s"
  by (induction s rule: universal_newlines.induct) auto

section \<open>Facts about polling\<close>

lemma poll_once_absent: "files path = None \<Longrightarrow> poll_once files path = None"
  by (simp add: poll_once_def)

lemma poll_once_empty: "files path = Some [] \<Longrightarrow> poll_once files path = None"
  by (simp add: poll_once_def strip_def)

lemma poll_once_Some:
  "poll_once files path = Some c \<Longrightarrow>
   c \<noteq> [] \<and> (\<exists>raw. files path = Some raw \<and> c = strip (universal_newlines raw))"
  by (auto simp: poll_once_def Let_def split: option.splits if_splits)

lemma poll_once_written:
  assumes "address \<noteq> []" "\<not> isspace (hd address)" "\<not> isspace (last address)"
    and "CR \<notin> set address"
  shows "poll_once (write_file files path address) path = Some address"
  using assms
  by (simp add: poll_once_def write_file_def universal_newlines_unchanged strip_unchanged)

lemma poll_loop_past_deadline:
  "\<not> now < deadline \<Longrightarrow>
   poll_loop store path deadline interval now = Some (Inl TimeoutError, now)"
  by (subst poll_loop.simps) simp

lemma poll_loop_found:
  "now < deadline \<Longrightarrow> poll_once (store now) path = Some c \<Longrightarrow>
   poll_loop store path deadline interval now = Some (Inr c, now)"
  by (subst poll_loop.simps) simp

lemma poll_loop_sleep:
  "now < deadline \<Longrightarrow> poll_once (store now) path = None \<Longrightarrow> 0 \<le> interval \<Longrightarrow>
   poll_loop store path deadline interval now =
   poll_loop store path deadline interval (now + interval)"
  by (subst poll_loop.simps) simp

lemma rounds_left_decrease:
  fixes deadline now interval :: rat
  assumes "0 < interval" "now < deadline"
  shows "nat \<lceil>(deadline - (now + interval)) / interval\<rceil> < nat \<lceil>(deadline - now) / interval\<rceil>"
proof -
  have "(deadline - (now + interval)) / interval = (deadline - now) / interval - 1"
    using assms by (simp add: field_simps)
  then have "\<lceil>(deadline - (now + interval)) / interval\<rceil> = \<lceil>(deadline - now) / interval\<rceil> - 1"
    by simp
  moreover have "0 < \<lceil>(deadline - now) / interval\<rceil>"
    using assms by (simp add: field_simps)
  ultimately show ?thesis by linarith
qed

lemma poll_loop_times_out:
  assumes "0 < interval"
    and "\<forall>t. now \<le> t \<and> t < deadline \<longrightarrow> poll_once (store t) path = None"
  shows "\<exists>t. deadline \<le> t \<and>
           poll_loop store path deadline interval now = Some (Inl TimeoutError, t)"
  using assms(2)
proof (induction "nat \<lceil>(deadline - now) / interval\<rceil>" arbitrary: now rule: less_induct)
  case less
  show ?case
  proof (cases "now < deadline")
    case False
    then show ?thesis by (simp add: poll_loop_past_deadline)
  next
    case True
    then have None: "poll_once (store now) path = None" using less.prems by simp
    have "\<forall>t. now + interval \<le> t \<and> t < deadline \<longrightarrow> poll_once (store t) path = None"
      using less.prems assms(1) by auto
    then have "\<exists>t. deadline \<le> t \<and>
        poll_loop store path deadline interval (now + interval) = Some (Inl TimeoutError, t)"
      using less.hyps rounds_left_decrease[OF assms(1) True] by blast
    with True None assms(1) show ?thesis by (simp add: poll_loop_sleep)
  qed
qed

lemma poll_loop_post:
  assumes "poll_loop store path deadline interval now = Some y"
  shows "poll_post store path deadline now y"
proof (rule poll_loop.raw_induct
    [where P = "\<lambda>store path deadline interval now y. poll_post store path deadline now y",
      OF _ assms])
  fix f store path deadline interval now y
  assume IH: "\<And>store path deadline interval now y.
      f store path deadline interval now = Some y \<Longrightarrow> poll_post store path deadline now y"
    and eq: "(if now < deadline
      then case poll_once (store now) path of
           None \<Rightarrow>
             if interval < 0 then Some (Inl ValueError, now)
             else f store path deadline interval (now + interval)
           | Some content \<Rightarrow> Some (Inr content, now)
      else Some (Inl TimeoutError, now)) = Some y"
  show "poll_post store path deadline now y"
  proof (cases "now < deadline")
    case False
    with eq show ?thesis by (auto simp: poll_post_def)
  next
    case True
    show ?thesis
    proof (cases "poll_once (store now) path")
      case (Some c)
      with True eq show ?thesis by (auto simp: poll_post_def)
    next
      case None
      show ?thesis
      proof (cases "interval < 0")
        case True
        with \<open>now < deadline\<close> None eq show ?thesis by (auto simp: poll_post_def)
      next
        case False
        with \<open>now < deadline\<close> None eq
        have "f store path deadline interval (now + interval) = Some y" by simp
        from IH[OF this] False show ?thesis
          by (auto simp: poll_post_def split: sum.splits prod.splits)
      qed
    qed
  qed
qed

text \<open>The loop sees the store only through \<open>poll_once\<close>.\<close>

lemma poll_loop_cong_Some:
  assumes "poll_loop store path deadline interval now = Some y"
    and "\<forall>t. poll_once (store t) path = poll_once (store' t) path"
  shows "poll_loop store' path deadline interval now = Some y"
proof -
  have "(\<forall>t. poll_once (store t) path = poll_once (store' t) path) \<longrightarrow>
        poll_loop store' path deadline interval now = Some y"
  proof (rule poll_loop.raw_induct
      [where P = "\<lambda>store path deadline interval now y.
          (\<forall>t. poll_once (store t) path = poll_once (store' t) path) \<longrightarrow>
          poll_loop store' path deadline interval now = Some y", OF _ assms(1)])
    fix f store path deadline interval now y
    assume IH: "\<And>store path deadline interval now y.
        f store path deadline interval now = Some y \<Longrightarrow>
        (\<forall>t. poll_once (store t) path = poll_once (store' t) path) \<longrightarrow>
        poll_loop store' path deadline interval now = Some y"
      and eq: "(if now < deadline
        then case poll_once (store now) path of
             None \<Rightarrow>
               if interval < 0 then Some (Inl ValueError, now)
               else f store path deadline interval (now + interval)
             | Some content \<Rightarrow> Some (Inr content, now)
        else Some (Inl TimeoutError, now)) = Some y"
    show "(\<forall>t. poll_once (store t) path = poll_once (store' t) path) \<longrightarrow>
          poll_loop store' path deadline interval now = Some y"
    proof
      assume same: "\<forall>t. poll_once (store t) path = poll_once (store' t) path"
      then have here: "poll_once (store' now) path = poll_once (store now) path" by simp
      show "poll_loop store' path deadline interval now = Some y"
      proof (cases "now < deadline")
        case False
        with eq have "y = (Inl TimeoutError, now)" by simp
        with False show ?thesis by (simp add: poll_loop_past_deadline)
      next
        case True
        show ?thesis
        proof (cases "poll_once (store now) path")
          case (Some c)
          with True eq have "y = (Inr c, now)" by simp
          moreover have "poll_once (store' now) path = Some c" using here Some by simp
          ultimately show ?thesis using True by (simp add: poll_loop_found)
        next
          case None
          then have None': "poll_once (store' now) path = None" using here by simp
          show ?thesis
          proof (cases "interval < 0")
            case neg: True
            with True None eq have "y = (Inl ValueError, now)" by simp
            with True None' neg show ?thesis by (subst poll_loop.simps) simp
          next
            case nonneg: False
            with True None eq
            have "f store path deadline interval (now + interval) = Some y" by simp
            from IH[OF this] same
            have "poll_loop store' path deadline interval (now + interval) = Some y"
              by (rule mp)
            with True None' nonneg show ?thesis by (simp add: poll_loop_sleep)
          qed
        qed
      qed
    qed
  qed
  with assms(2) show ?thesis by blast
qed

lemma poll_loop_cong:
  assumes "\<forall>t. poll_once (store t) path = poll_once (store' t) path"
  shows "poll_loop store path deadline interval now =
         poll_loop store' path deadline interval now"
proof (cases "poll_loop store path deadline interval now")
  case (Some y)
  from poll_loop_cong_Some[OF Some assms] Some show ?thesis by simp
next
  case None
  show ?thesis
  proof (cases "poll_loop store' path deadline interval now")
    case (Some y)
    from assms have "\<forall>t. poll_once (store' t) path = poll_once (store t) path" by simp
    from poll_loop_cong_Some[OF Some this] None show ?thesis by simp
  next
    case None': None
    with None show ?thesis by simp
  qed
qed

lemma poll_file_found:
  assumes "0 < timeout" "poll_once (store now) path = Some c"
  shows "poll_file store path timeout interval now = Some (Inr c, now)"
  using assms by (simp add: poll_file_def poll_loop_found)

lemma poll_file_times_out:
  assumes "0 < interval"
    and "\<forall>t. now \<le> t \<and> t < now + timeout \<longrightarrow> poll_once (store t) path = None"
  shows "\<exists>t. poll_file store path timeout interval now = Some (Inl TimeoutError, t)"
  using poll_loop_times_out[OF assms] by (auto simp: poll_file_def)

lemma run_worker_times_out:
  assumes "\<forall>t. now \<le> t \<and> t < now + 120 \<longrightarrow> poll_once (store t) (ADDR_FILE env) = None"
  shows "run_worker env store ray_init now = Some (Inl TimeoutError)"
proof -
  have "(0::rat) < 2" by simp
  from poll_file_times_out[OF this assms]
  obtain t where "poll_file store (ADDR_FILE env) 120 2 now = Some (Inl TimeoutError, t)"
    by blast
  then show ?thesis by (simp add: run_worker_def)
qed

section \<open>Facts about the topology check\<close>

lemma is_prefix_iff: "is_prefix a b \<longleftrightarrow> (\<exists>s. b = a @ s)"
  by (induction a b rule: is_prefix.induct) auto

lemma str_in_iff: "str_in a b \<longleftrightarrow> (\<exists>p s. b = p @ a @ s)"
proof (induction b)
  case Nil
  then show ?case by auto
next
  case (Cons y ys)
  show ?case
  proof
    assume "str_in a (y # ys)"
    then consider "is_prefix a (y # ys)" | "str_in a ys" by auto
    then show "\<exists>p s. y # ys = p @ a @ s"
    proof cases
      case 1
      then obtain s where "y # ys = a @ s" by (auto simp: is_prefix_iff)
      then have "y # ys = [] @ a @ s" by simp
      then show ?thesis by blast
    next
      case 2
      with Cons obtain p s where "ys = p @ a @ s" by blast
      then have "y # ys = (y # p) @ a @ s" by simp
      then show ?thesis by blast
    qed
  next
    assume "\<exists>p s. y # ys = p @ a @ s"
    then obtain p s where eq: "y # ys = p @ a @ s" by blast
    show "str_in a (y # ys)"
    proof (cases p)
      case Nil
      with eq have "is_prefix a (y # ys)" by (auto simp: is_prefix_iff)
      then show ?thesis by simp
    next
      case (Cons q qs)
      with eq have "ys = qs @ a @ s" by simp
      with Cons.IH have "str_in a ys" by blast
      then show ?thesis by simp
    qed
  qed
qed

lemma length_sort_remdups: "length (sort (remdups xs)) = card (set xs)"
  by (simp add: length_remdups_card_conv)

lemma card_all_same:
  assumes "xs \<noteq> []" "\<forall>h\<in>set xs. h = hd xs"
  shows "card (set xs) = 1"
proof -
  from assms have "set xs = {hd xs}" by (cases xs) auto
  then show ?thesis by simp
qed

lemma check_topology_rank0:
  "check_topology 0 (h # rest) env =
     Inr (Some \<lparr>unique_hosts = card (set (h # rest)),
                hostnames = sort (remdups (h # rest)),
                is_multi_node = (1 < card (set (h # rest))),
                master_addr = environ_get env ''MASTER_ADDR'' ''NOT SET'',
                master_addr_correct =
                  (str_in (environ_get env ''MASTER_ADDR'' ''NOT SET'') h \<or>
                   str_in h (environ_get env ''MASTER_ADDR'' ''NOT SET''))\<rparr>,
          (if str_in (environ_get env ''MASTER_ADDR'' ''NOT SET'') h \<or>
              str_in h (environ_get env ''MASTER_ADDR'' ''NOT SET'')
           then [''  MASTER_ADDR matches rank 0 host: PASSED'']
           else [''  MASTER_ADDR='' @ environ_get env ''MASTER_ADDR'' ''NOT SET''
                 @ '' vs rank0_host='' @ h @ '': FAILED'']) @
          (if 1 < card (set (h # rest))
           then [''  Multi-node allocation: PASSED (''
                 @ str_nat (card (set (h # rest))) @ '' nodes)'']
           else [''  WARNING: Single-node allocation (4 GPUs on 1 node)'',
                 ''  Cross-node NCCL not tested in this run'']))"
  unfolding check_topology_def Let_def length_sort_remdups by simp

section \<open>Facts about start-up\<close>

lemma py_int_zero: "py_int ''0'' = Inr 0"
  by code_simp

section \<open>Facts about the self-report loop\<close>

lemma rounds_log_empty [simp]: "rounds_log i i = []"
  by (simp add: rounds_log_def)

lemma rounds_log_Cons: "i < n \<Longrightarrow> rounds_log i n = Report i # Crossed # rounds_log (Suc i) n"
  by (simp add: rounds_log_def upt_conv_Cons)

lemma rounds_log_snoc: "i \<le> n \<Longrightarrow> rounds_log i (Suc n) = rounds_log i n @ [Report n, Crossed]"
  by (simp add: rounds_log_def)

lemma rounds_log_append:
  "i \<le> j \<Longrightarrow> j \<le> n \<Longrightarrow> rounds_log i n = rounds_log i j @ rounds_log j n"
  unfolding rounds_log_def by (metis concat_append map_append upt_add_eq_append le_Suc_ex)

lemma rounds_log_split:
  "rounds_log i n = xs @ Report r # zs \<Longrightarrow> i \<le> r \<and> r < n \<and> xs = rounds_log i r"
proof (induction "n - i" arbitrary: i xs)
  case 0
  then have "rounds_log i n = []" by (simp add: rounds_log_def)
  with "0.prems" show ?case by simp
next
  case (Suc d)
  then have lt: "i < n" by simp
  with Suc.prems have eq: "Report i # Crossed # rounds_log (Suc i) n = xs @ Report r # zs"
    by (simp add: rounds_log_Cons)
  show ?case
  proof (cases xs)
    case Nil
    with eq lt show ?thesis by simp
  next
    case (Cons x xs')
    with eq have x: "x = Report i" and eq': "Crossed # rounds_log (Suc i) n = xs' @ Report r # zs"
      by simp_all
    from eq' obtain xs'' where xs': "xs' = Crossed # xs''"
      and eq'': "rounds_log (Suc i) n = xs'' @ Report r # zs"
      by (cases xs') auto
    from Suc.hyps(2) have "d = n - Suc i" by simp
    from Suc.hyps(1)[OF this eq'']
    have "Suc i \<le> r" "r < n" "xs'' = rounds_log (Suc i) r" by simp_all
    then show ?thesis using Cons x xs' by (simp add: rounds_log_Cons)
  qed
qed

lemma ranks_inv_start: "ranks_inv world_size (start_ranks world_size)"
  unfolding ranks_inv_def start_ranks_def
  by (rule exI[of _ 0]) (auto simp: list_all_iff)

lemma ranks_inv_step:
  assumes "ranks_inv world_size w"
  shows "ranks_inv world_size (rank_step world_size w p)"
proof -
  from assms obtain k where k: "k \<le> world_size"
    and len: "length (positions w) = world_size"
    and pos: "list_all (\<lambda>q. q = Round k \<or> q = InBarrier k) (positions w)"
    and log: "shared_log w = rounds_log 0 k @
            (if k < world_size \<and> positions w ! k = InBarrier k then [Report k] else [])"
    unfolding ranks_inv_def by blast
  show ?thesis
  proof (cases "p < world_size \<and> positions w ! p = Round k \<and> k < world_size")
    case False
    have "rank_step world_size w p = w"
    proof (cases "p < world_size")
      case out: False
      with len show ?thesis by (simp add: rank_step_def)
    next
      case True
      with pos len have "positions w ! p = Round k \<or> positions w ! p = InBarrier k"
        by (simp add: list_all_length)
      with True False len show ?thesis by (auto simp: rank_step_def)
    qed
    with assms show ?thesis by simp
  next
    case True
    then have p: "p < world_size" and at: "positions w ! p = Round k" and kw: "k < world_size"
      by simp_all
    let ?printed = "if p = k then shared_log w @ [Report p] else shared_log w"
    let ?entered = "(positions w)[p := InBarrier k]"
    have step: "rank_step world_size w p =
        (if list_all (\<lambda>q. q = InBarrier k) ?entered
         then \<lparr>positions = map (\<lambda>q. Round (Suc k)) ?entered, shared_log = ?printed @ [Crossed]\<rparr>
         else \<lparr>positions = ?entered, shared_log = ?printed\<rparr>)"
      using p at kw len by (simp add: rank_step_def Let_def)
    have entered_k: "?entered ! k = (if p = k then InBarrier k else positions w ! k)"
      using kw len by (simp add: nth_list_update)
    have printed: "?printed = rounds_log 0 k @ (if ?entered ! k = InBarrier k then [Report k] else [])"
      using log at kw entered_k by auto
    show ?thesis
    proof (cases "list_all (\<lambda>q. q = InBarrier k) ?entered")
      case all: True
      then have "?entered ! k = InBarrier k" using kw len by (simp add: list_all_length)
      with printed have "?printed @ [Crossed] = rounds_log 0 (Suc k)"
        by (simp add: rounds_log_snoc)
      moreover have "list_all (\<lambda>q. q = Round (Suc k) \<or> q = InBarrier (Suc k))
          (map (\<lambda>q. Round (Suc k)) ?entered)"
        by (simp add: list_all_iff)
      moreover have "map (\<lambda>q. Round (Suc k)) ?entered ! Suc k \<noteq> InBarrier (Suc k)"
        if "Suc k < world_size"
        using that len by simp
      ultimately have "ranks_inv world_size
          \<lparr>positions = map (\<lambda>q. Round (Suc k)) ?entered, shared_log = ?printed @ [Crossed]\<rparr>"
        unfolding ranks_inv_def using kw len
        by (intro exI[of _ "Suc k"]) auto
      with step all show ?thesis by simp
    next
      case some: False
      have "list_all (\<lambda>q. q = Round k \<or> q = InBarrier k) ?entered"
        using pos by (auto simp: list_all_iff dest: set_update_subset_insert[THEN subsetD])
      with printed have "ranks_inv world_size \<lparr>positions = ?entered, shared_log = ?printed\<rparr>"
        unfolding ranks_inv_def using k kw len
        by (intro exI[of _ k]) auto
      with step some show ?thesis by simp
    qed
  qed
qed

lemma ranks_inv_foldl:
  "ranks_inv world_size w \<Longrightarrow> ranks_inv world_size (foldl (rank_step world_size) w schedule)"
  by (induction schedule arbitrary: w) (simp_all add: ranks_inv_step)

lemma ranks_inv_run: "ranks_inv world_size (run_ranks world_size schedule)"
  unfolding run_ranks_def by (rule ranks_inv_foldl) (rule ranks_inv_start)

lemma ranks_inv_order:
  assumes "ranks_inv world_size w" and "shared_log w = before @ Report r # after" and "s < r"
  shows "before = rounds_log 0 s @ Report s # Crossed # rounds_log (Suc s) r"
proof -
  from assms(1) obtain k tail where "shared_log w = rounds_log 0 k @ tail"
    and "tail = [] \<or> tail = [Report k]"
    unfolding ranks_inv_def by (metis (full_types))
  then obtain rest where "rounds_log 0 (Suc k) = shared_log w @ rest"
    by (auto simp: rounds_log_snoc)
  with assms(2) have "rounds_log 0 (Suc k) = before @ Report r # (after @ rest)" by simp
  then have "before = rounds_log 0 r" by (simp add: rounds_log_split)
  also have "\<dots> = rounds_log 0 s @ rounds_log s r"
    using assms(3) by (simp add: rounds_log_append)
  also have "rounds_log s r = Report s # Crossed # rounds_log (Suc s) r"
    using assms(3) by (simp add: rounds_log_Cons)
  finally show ?thesis .
qed

section \<open>Facts about floats\<close>

lemma round_half_even_near: "\<bar>of_int (round_half_even x) - x\<bar> \<le> 1 / 2"
proof -
  let ?f = "\<lfloor>x\<rfloor>"
  let ?d = "x - of_int ?f"
  have lo: "0 \<le> ?d" and hi: "?d < 1" by linarith+
  consider "?d < 1 / 2" | "1 / 2 < ?d" | "?d = 1 / 2" by linarith
  then show ?thesis
  proof cases
    case 1
    then have "round_half_even x = ?f" by (simp add: round_half_even_def Let_def)
    with lo 1 show ?thesis by simp
  next
    case 2
    then have "round_half_even x = ?f + 1" by (simp add: round_half_even_def Let_def)
    with hi 2 show ?thesis by simp
  next
    case 3
    then have "round_half_even x = ?f \<or> round_half_even x = ?f + 1"
      by (simp add: round_half_even_def Let_def)
    with 3 show ?thesis by auto
  qed
qed

lemma round_half_even_nonneg: "0 \<le> x \<Longrightarrow> 0 \<le> round_half_even x"
  unfolding round_half_even_def Let_def by (auto split: if_splits)

lemma round_half_even_of_int: "round_half_even (of_int k) = k"
  by (simp add: round_half_even_def Let_def)

lemma decimal_str_int: "0 \<le> k \<Longrightarrow> decimal k = str_int k"
  by (simp add: str_int_def)

lemma bit_length_bounds:
  "0 < n \<Longrightarrow> 2 ^ (bit_length n - 1) \<le> n \<and> n < 2 ^ bit_length n"
proof (induction n rule: bit_length.induct)
  case (1 n)
  from "1.prems" have bl: "bit_length n = Suc (bit_length (n div 2))"
    by (subst bit_length.simps) simp
  show ?case
  proof (cases "n div 2 = 0")
    case True
    with "1.prems" have "n = 1" by linarith
    moreover have "bit_length (0::int) = 0" by (subst bit_length.simps) simp
    ultimately show ?thesis using bl by simp
  next
    case False
    with "1.prems" have pos: "0 < n div 2" by linarith
    from "1.prems" have "\<not> n \<le> 0" by simp
    from "1.IH"[OF this pos]
    have lo: "2 ^ (bit_length (n div 2) - 1) \<le> n div 2"
      and hi: "n div 2 < 2 ^ bit_length (n div 2)" by simp_all
    have "bit_length (n div 2) \<noteq> 0"
      using pos by (subst bit_length.simps) simp
    then obtain b where b: "bit_length (n div 2) = Suc b" by (cases "bit_length (n div 2)") auto
    from lo b have "2 * 2 ^ b \<le> 2 * (n div 2)" by simp
    also have "\<dots> \<le> n" by linarith
    finally have 1: "(2::int) ^ (bit_length n - 1) \<le> n" using bl b by simp
    from hi have "n div 2 + 1 \<le> 2 ^ bit_length (n div 2)" by linarith
    then have "2 * (n div 2) + 2 \<le> 2 * 2 ^ bit_length (n div 2)" by linarith
    moreover have "n < 2 * (n div 2) + 2" by linarith
    ultimately have 2: "n < 2 ^ bit_length n" using bl by simp
    from 1 2 show ?thesis by simp
  qed
qed

lemma pow2_powi: "pow2 k = 2 powi k"
  by (simp add: pow2_def power_int_def inverse_eq_divide power_one_over)

lemma pow2_pos: "0 < pow2 k"
  by (simp add: pow2_powi)

lemma pow2_add: "pow2 (a + b) = pow2 a * pow2 b"
  by (simp add: pow2_powi power_int_add)

lemma pow2_mono: "a \<le> b \<Longrightarrow> pow2 a \<le> pow2 b"
  by (simp add: pow2_powi power_int_increasing)

lemma pow2_strict_mono: "a < b \<Longrightarrow> pow2 a < pow2 b"
  by (simp add: pow2_powi power_int_strict_increasing)

lemma pow2_nat: "pow2 (int n) = 2 ^ n"
  by (simp add: pow2_def)

lemma pow2_neg_nat: "pow2 (- int n) = 1 / 2 ^ n"
  by (simp add: pow2_powi power_int_minus inverse_eq_divide)

lemma ilog2_bounds:
  assumes "0 < x"
  shows "pow2 (ilog2 x) \<le> x \<and> x < pow2 (ilog2 x + 1)"
proof (cases "1 \<le> x")
  case True
  then have pos: "0 < \<lfloor>x\<rfloor>" by linarith
  let ?b = "bit_length \<lfloor>x\<rfloor>"
  from bit_length_bounds[OF pos]
  have lo: "2 ^ (?b - 1) \<le> \<lfloor>x\<rfloor>" and hi: "\<lfloor>x\<rfloor> < 2 ^ ?b" by simp_all
  from lo hi have "?b \<noteq> 0" using pos by (cases ?b) auto
  then have il: "ilog2 x = int (?b - 1)" "ilog2 x + 1 = int ?b"
    using True by (simp_all add: ilog2_def)
  from lo have a: "(of_int (2 ^ (?b - 1)) :: rat) \<le> of_int \<lfloor>x\<rfloor>"
    by (simp only: of_int_le_iff)
  have "(2 ^ (?b - 1) :: rat) = of_int (2 ^ (?b - 1))" by simp
  also note a
  also have "of_int \<lfloor>x\<rfloor> \<le> x" by (rule of_int_floor_le)
  finally have "2 ^ (?b - 1) \<le> x" .
  moreover have "pow2 (ilog2 x) = 2 ^ (?b - 1)" by (simp only: il(1) pow2_nat)
  ultimately have 1: "pow2 (ilog2 x) \<le> x" by simp
  from hi have "\<lfloor>x\<rfloor> + 1 \<le> 2 ^ ?b" by linarith
  then have b: "(of_int (\<lfloor>x\<rfloor> + 1) :: rat) \<le> of_int (2 ^ ?b)"
    by (simp only: of_int_le_iff)
  have "x < of_int (\<lfloor>x\<rfloor> + 1)" by linarith
  also note b
  also have "(of_int (2 ^ ?b) :: rat) = 2 ^ ?b" by simp
  finally have "x < 2 ^ ?b" .
  moreover have "pow2 (ilog2 x + 1) = 2 ^ ?b" by (simp only: il(2) pow2_nat)
  ultimately have 2: "x < pow2 (ilog2 x + 1)" by simp
  from 1 2 show ?thesis by simp
next
  case False
  let ?y = "1 / x"
  from False assms have y: "1 < ?y" by simp
  then have pos: "0 < \<lceil>?y\<rceil> - 1" by linarith
  let ?k = "bit_length (\<lceil>?y\<rceil> - 1)"
  from bit_length_bounds[OF pos]
  have lo: "2 ^ (?k - 1) \<le> \<lceil>?y\<rceil> - 1" and hi: "\<lceil>?y\<rceil> - 1 < 2 ^ ?k" by simp_all
  from lo hi have k0: "?k \<noteq> 0" using pos by (cases ?k) auto
  have il: "ilog2 x = - int ?k" using False by (simp add: ilog2_def)
  from hi have "\<lceil>?y\<rceil> \<le> 2 ^ ?k" by linarith
  then have c: "(of_int \<lceil>?y\<rceil> :: rat) \<le> of_int (2 ^ ?k)" by (simp only: of_int_le_iff)
  have "?y \<le> of_int \<lceil>?y\<rceil>" by (rule le_of_int_ceiling)
  also note c
  also have "(of_int (2 ^ ?k) :: rat) = 2 ^ ?k" by simp
  finally have yk: "?y \<le> 2 ^ ?k" .
  define P :: rat where "P = 2 ^ ?k"
  have P: "0 < P" by (simp add: P_def)
  from yk have "1 / x \<le> P" by (simp add: P_def)
  with assms P have "1 / P \<le> x" by (simp add: field_simps)
  moreover have "pow2 (ilog2 x) = 1 / P" unfolding P_def by (simp only: il pow2_neg_nat)
  ultimately have 1: "pow2 (ilog2 x) \<le> x" by simp
  from lo have d: "(of_int (2 ^ (?k - 1)) :: rat) \<le> of_int (\<lceil>?y\<rceil> - 1)"
    by (simp only: of_int_le_iff)
  have "(2 ^ (?k - 1) :: rat) = of_int (2 ^ (?k - 1))" by simp
  also note d
  also have "of_int (\<lceil>?y\<rceil> - 1) < ?y" by linarith
  finally have yk': "2 ^ (?k - 1) < ?y" .
  define Q :: rat where "Q = 2 ^ (?k - 1)"
  have Q: "0 < Q" by (simp add: Q_def)
  from yk' have "Q < 1 / x" by (simp add: Q_def)
  with assms Q have "x < 1 / Q" by (simp add: field_simps)
  moreover have "ilog2 x + 1 = - int (?k - 1)" using k0 il by simp
  then have "pow2 (ilog2 x + 1) = 1 / Q" unfolding Q_def by (simp only: pow2_neg_nat)
  ultimately have 2: "x < pow2 (ilog2 x + 1)" by simp
  from 1 2 show ?thesis by simp
qed

lemma ilog2_less:
  assumes "0 < x" "x < pow2 k"
  shows "ilog2 x < k"
proof (rule ccontr)
  assume "\<not> ilog2 x < k"
  then have "pow2 k \<le> pow2 (ilog2 x)" by (simp add: pow2_mono)
  with ilog2_bounds[OF assms(1)] assms(2) show False by simp
qed

lemma pow2_int: "0 \<le> k \<Longrightarrow> \<exists>j::int. pow2 k = of_int j"
proof -
  assume "0 \<le> k"
  then have "pow2 k = of_int (2 ^ nat k)" by (simp add: pow2_def)
  then show ?thesis by blast
qed

lemma pow2_on_grid:
  assumes "- 1074 \<le> a"
  shows "\<exists>j::int. pow2 a = of_int j * pow2 (- 1074)"
proof -
  have "pow2 a = pow2 ((a + 1074) + (- 1074))" by simp
  also have "\<dots> = pow2 (a + 1074) * pow2 (- 1074)" by (rule pow2_add)
  finally have eq: "pow2 a = pow2 (a + 1074) * pow2 (- 1074)" .
  from assms have "0 \<le> a + 1074" by simp
  from pow2_int[OF this] obtain j :: int where "pow2 (a + 1074) = of_int j" by blast
  with eq show ?thesis by auto
qed

lemma on_grid_0: "on_grid 0"
  unfolding on_grid_def by (rule exI[of _ 0]) simp

lemma on_grid_add: "on_grid a \<Longrightarrow> on_grid b \<Longrightarrow> on_grid (a + b)"
proof -
  assume "on_grid a" "on_grid b"
  then obtain i j :: int where "a = of_int i * pow2 (- 1074)" "b = of_int j * pow2 (- 1074)"
    unfolding on_grid_def by blast
  then have "a + b = of_int (i + j) * pow2 (- 1074)" by (simp add: algebra_simps)
  then show ?thesis unfolding on_grid_def by blast
qed

lemma on_grid_diff: "on_grid a \<Longrightarrow> on_grid b \<Longrightarrow> on_grid (a - b)"
proof -
  assume "on_grid a" "on_grid b"
  then obtain i j :: int where "a = of_int i * pow2 (- 1074)" "b = of_int j * pow2 (- 1074)"
    unfolding on_grid_def by blast
  then have "a - b = of_int (i - j) * pow2 (- 1074)" by (simp add: algebra_simps)
  then show ?thesis unfolding on_grid_def by blast
qed

lemma on_grid_mult_int: "on_grid a \<Longrightarrow> on_grid (of_int n * a)"
proof -
  assume "on_grid a"
  then obtain i :: int where "a = of_int i * pow2 (- 1074)" unfolding on_grid_def by blast
  then have "of_int n * a = of_int (n * i) * pow2 (- 1074)" by simp
  then show ?thesis unfolding on_grid_def by blast
qed

lemma on_grid_of_int: "on_grid (of_int n)"
proof -
  from pow2_on_grid[of 0] obtain j :: int where "pow2 0 = of_int j * pow2 (- 1074)" by auto
  moreover have "pow2 0 = 1" by (simp add: pow2_def)
  ultimately have "on_grid 1" unfolding on_grid_def by metis
  from on_grid_mult_int[OF this, of n] show ?thesis by simp
qed

lemma quantum_pos: "0 < quantum x"
  by (simp add: quantum_def pow2_pos)

lemma round_to_double_Finite:
  assumes "x \<noteq> 0" "round_to_double x = Finite r"
  shows "r = of_int (round_half_even (x / quantum x)) * quantum x"
  using assms unfolding round_to_double_def quantum_def Let_def
  by (simp split: if_splits)

lemma round_to_double_error:
  assumes "x \<noteq> 0" "round_to_double x = Finite r"
  shows "\<bar>r - x\<bar> \<le> quantum x / 2"
proof -
  let ?q = "quantum x"
  let ?m = "round_half_even (x / ?q)"
  have q: "0 < ?q" by (rule quantum_pos)
  have r: "r = of_int ?m * ?q" using assms by (rule round_to_double_Finite)
  have "r - x = (of_int ?m - x / ?q) * ?q" using q by (simp add: r field_simps)
  then have "\<bar>r - x\<bar> = \<bar>of_int ?m - x / ?q\<bar> * ?q" using q by (simp add: abs_mult)
  also have "\<dots> \<le> (1 / 2) * ?q"
    using q round_half_even_near[of "x / ?q"] by (intro mult_right_mono) simp_all
  finally show ?thesis by simp
qed

lemma round_to_double_in_range:
  assumes "x \<noteq> 0" "\<bar>x\<bar> < pow2 1023"
  shows "\<exists>r. round_to_double x = Finite r"
proof -
  from assms(1) have "0 < \<bar>x\<bar>" by simp
  from ilog2_less[OF this assms(2)] have "ilog2 \<bar>x\<bar> < 1023" .
  then have e: "max (ilog2 \<bar>x\<bar>) (- 1022) < 1023" by simp
  let ?e = "max (ilog2 \<bar>x\<bar>) (- 1022)"
  from e have "\<not> 1023 < ?e" "?e \<noteq> 1023" by linarith+
  then have c: "\<not> (1023 < ?e \<or>
      (?e = 1023 \<and> \<bar>round_half_even (x / pow2 (?e - 52))\<bar> = 2 ^ 53))" by blast
  have "round_to_double x =
      Finite (of_int (round_half_even (x / pow2 (?e - 52))) * pow2 (?e - 52))"
    unfolding round_to_double_def Let_def
    by (simp only: if_not_P[OF assms(1)] if_not_P[OF c])
  then show ?thesis by blast
qed

lemma round_to_double_on_grid:
  assumes "round_to_double x = Finite r"
  shows "on_grid r"
proof (cases "x = 0")
  case True
  with assms show ?thesis by (simp add: round_to_double_def on_grid_0)
next
  case False
  have "- 1074 \<le> max (ilog2 \<bar>x\<bar>) (- 1022) - 52" by simp
  from pow2_on_grid[OF this]
  have "on_grid (quantum x)" unfolding quantum_def on_grid_def .
  then have "on_grid (of_int (round_half_even (x / quantum x)) * quantum x)"
    by (rule on_grid_mult_int)
  with round_to_double_Finite[OF False assms] show ?thesis by simp
qed

lemma is_double_on_grid: "is_double x \<Longrightarrow> on_grid x"
  unfolding is_double_def by (rule round_to_double_on_grid)

lemma round_to_double_sign:
  assumes "round_to_double x = Finite r" "0 \<le> x"
  shows "0 \<le> r"
proof (cases "x = 0")
  case True
  with assms show ?thesis by (simp add: round_to_double_def)
next
  case False
  have "0 \<le> x / quantum x" using assms(2) quantum_pos[of x] by simp
  then have "0 \<le> round_half_even (x / quantum x)" by (rule round_half_even_nonneg)
  with round_to_double_Finite[OF False assms(1)] quantum_pos[of x] show ?thesis by simp
qed

text \<open>
  A grid point within range rounds to a double with a relative error of at most
  one part in \<open>2 ^ 53\<close>.
\<close>

lemma round_to_double_relative:
  assumes "on_grid x" "\<bar>x\<bar> < pow2 1023"
  shows "\<exists>r. round_to_double x = Finite r \<and> \<bar>r - x\<bar> \<le> \<bar>x\<bar> / 2 ^ 53"
proof (cases "x = 0")
  case True
  then show ?thesis by (simp add: round_to_double_def)
next
  case False
  from round_to_double_in_range[OF False assms(2)]
  obtain r where r: "round_to_double x = Finite r" by blast
  have pos: "0 < \<bar>x\<bar>" using False by simp
  show ?thesis
  proof (cases "- 1022 \<le> ilog2 \<bar>x\<bar>")
    case True
    then have "quantum x = pow2 (ilog2 \<bar>x\<bar> + (- 52))" by (simp add: quantum_def max_def)
    also have "\<dots> = pow2 (ilog2 \<bar>x\<bar>) * pow2 (- 52)" by (rule pow2_add)
    also have "pow2 (- 52) = 1 / 2 ^ 52" using pow2_neg_nat[of 52] by simp
    finally have "quantum x = pow2 (ilog2 \<bar>x\<bar>) / 2 ^ 52" by simp
    moreover have "pow2 (ilog2 \<bar>x\<bar>) \<le> \<bar>x\<bar>" using ilog2_bounds[OF pos] by simp
    ultimately have "quantum x \<le> \<bar>x\<bar> / 2 ^ 52" by (simp add: divide_right_mono)
    then have "quantum x / 2 \<le> \<bar>x\<bar> / 2 ^ 53" by simp
    with round_to_double_error[OF False r] have "\<bar>r - x\<bar> \<le> \<bar>x\<bar> / 2 ^ 53" by linarith
    with r show ?thesis by blast
  next
    case False': False
    then have q: "quantum x = pow2 (- 1074)" by (simp add: quantum_def max_def)
    from assms(1) obtain k :: int where k: "x = of_int k * pow2 (- 1074)"
      unfolding on_grid_def by blast
    have "x / quantum x = x / pow2 (- 1074)" by (simp only: q)
    also have "\<dots> = of_int k" using pow2_pos[of "- 1074"] by (simp add: k)
    finally have "x / quantum x = of_int k" .
    then have "round_half_even (x / quantum x) = k" by (simp add: round_half_even_of_int)
    with round_to_double_Finite[OF False r] have "r = of_int k * quantum x" by simp
    with q have "r = of_int k * pow2 (- 1074)" by simp
    with k have "r = x" by simp
    with r show ?thesis by simp
  qed
qed

section \<open>Facts about standard output\<close>

lemma py_print_accepts:
  assumes "\<not> stream_closed out" "device_ok out"
  shows "\<exists>out'. py_print out line = Inr out' \<and> \<not> stream_closed out' \<and> device_ok out' \<and>
           written out' @ pending out' = written out @ pending out @ [line]"
  using assms by (simp add: py_print_def)

lemma py_print_closed: "stream_closed out \<Longrightarrow> py_print out line = Inl ValueError"
  by (simp add: py_print_def)

lemma py_print_raises:
  "py_print out line = Inl e \<Longrightarrow> e = ValueError \<or> e = OSError"
  by (auto simp: py_print_def split: if_splits)

lemma flush_at_exit_accepts:
  assumes "\<not> stream_closed out" "device_ok out"
  shows "\<exists>out'. flush_at_exit out = (True, out') \<and>
           written out' = written out @ pending out \<and> pending out' = []"
  using assms by (simp add: flush_at_exit_def)

section \<open>Facts about the signal handler\<close>

lemma int_add_float_raises: "int_add_float n x = Inl e \<Longrightarrow> e = OverflowError"
  by (auto simp: int_add_float_def float_of_int_def split: sum.splits pyfloat.splits)

lemma handle_signal_status:
  assumes "handle_signal seg signum now out = (e, out')"
  shows "exit_status (Inl e :: exn + unit) = 1"
proof -
  from assms have "e = ValueError \<or> e = OSError \<or> e = OverflowError \<or> e = SystemExit 1"
    unfolding handle_signal_def Let_def
    by (auto split: sum.splits dest: py_print_raises int_add_float_raises)
  then show ?thesis by auto
qed

lemma handle_signal_closed:
  assumes "stream_closed out"
  shows "handle_signal seg signum now out = (ValueError, out)"
  using assms by (simp add: handle_signal_def py_print_closed Let_def)

lemma format_0f_nonneg:
  assumes "0 \<le> x"
  shows "format_0f (Finite x) = str_int (round_half_even x)"
proof -
  from assms have "0 \<le> round_half_even x" by (rule round_half_even_nonneg)
  with assms show ?thesis by (simp add: decimal_str_int)
qed

lemma format_0f_sign:
  "format_0f (Finite x) = (if x < 0 then ''-'' else []) @ str_int (round_half_even \<bar>x\<bar>)"
proof -
  have "0 \<le> round_half_even \<bar>x\<bar>" by (simp add: round_half_even_nonneg)
  then show ?thesis by (simp add: decimal_str_int)
qed

lemma pow2_1023: "(2::rat) ^ 1002 < pow2 1023"
proof -
  have "pow2 1023 = 2 ^ 1023" using pow2_nat[of 1023] by simp
  moreover have "(2::rat) ^ 1002 < 2 ^ 1023" by (rule power_strict_increasing) simp_all
  ultimately show ?thesis by simp
qed

text \<open>The three roundings of the handler, for clock values that are doubles.\<close>

lemma handler_arithmetic:
  assumes "is_double now" "is_double start" "start \<le> now"
    and "now - start \<le> 2 ^ 1000" "\<bar>of_int prior :: rat\<bar> \<le> 2 ^ 1000"
  shows "\<exists>e s. float_sub now start = Finite e \<and> 0 \<le> e \<and>
           \<bar>e - (now - start)\<bar> \<le> (now - start) / 2 ^ 53 \<and>
           int_add_float prior (Finite e) = Inr (Finite s) \<and>
           \<bar>s - (of_int prior + (now - start))\<bar> \<le> (\<bar>of_int prior\<bar> + (now - start)) / 2 ^ 51"
proof -
  define t where "t = now - start"
  define p :: rat where "p = of_int prior"
  define w where "w = (\<bar>p\<bar> + t) / 2 ^ 53"
  have t0: "0 \<le> t" using assms(3) by (simp add: t_def)
  have tB: "t \<le> 2 ^ 1000" using assms(4) by (simp add: t_def)
  have pB: "\<bar>p\<bar> \<le> 2 ^ 1000" using assms(5) by (simp add: p_def)
  have big: "(2::rat) ^ 1002 = 4 * 2 ^ 1000" by simp
  have w0: "0 \<le> w" using t0 by (simp add: w_def)
  have ww: "w \<le> \<bar>p\<bar> + t"
  proof -
    have "(\<bar>p\<bar> + t) / 2 ^ 53 \<le> (\<bar>p\<bar> + t) / 1"
      using t0 by (intro divide_left_mono) simp_all
    then show ?thesis by (simp add: w_def)
  qed
  have grid_t: "on_grid t"
    unfolding t_def using assms(1,2) by (intro on_grid_diff is_double_on_grid)
  have "\<bar>t\<bar> < pow2 1023" using t0 tB pow2_1023 big by simp
  from round_to_double_relative[OF grid_t this]
  obtain e where e: "round_to_double t = Finite e" and de: "\<bar>e - t\<bar> \<le> \<bar>t\<bar> / 2 ^ 53" by blast
  have e0: "0 \<le> e" using e t0 by (rule round_to_double_sign)
  have grid_e: "on_grid e" using e by (rule round_to_double_on_grid)
  have grid_p: "on_grid p" unfolding p_def by (rule on_grid_of_int)
  have "\<bar>p\<bar> < pow2 1023" using pB pow2_1023 big by simp
  from round_to_double_relative[OF grid_p this]
  obtain a where a: "round_to_double p = Finite a" and da: "\<bar>a - p\<bar> \<le> \<bar>p\<bar> / 2 ^ 53" by blast
  have grid_a: "on_grid a" using a by (rule round_to_double_on_grid)
  have conv: "float_of_int prior = Inr a" using a by (simp add: float_of_int_def p_def)
  have dsum: "\<bar>a - p\<bar> + \<bar>e - t\<bar> \<le> w"
  proof -
    have "\<bar>p\<bar> / 2 ^ 53 + \<bar>t\<bar> / 2 ^ 53 = w" using t0 by (simp add: w_def add_divide_distrib)
    with da de show ?thesis by linarith
  qed
  have sum_le: "\<bar>a + e\<bar> \<le> \<bar>p\<bar> + t + w"
  proof -
    have "\<bar>a\<bar> \<le> \<bar>p\<bar> + \<bar>a - p\<bar>" by linarith
    moreover have "\<bar>e\<bar> \<le> t + \<bar>e - t\<bar>" using t0 by linarith
    moreover have "\<bar>a + e\<bar> \<le> \<bar>a\<bar> + \<bar>e\<bar>" by (rule abs_triangle_ineq)
    ultimately have "\<bar>a + e\<bar> \<le> \<bar>p\<bar> + \<bar>a - p\<bar> + (t + \<bar>e - t\<bar>)" by linarith
    with dsum show ?thesis by linarith
  qed
  note sum_le
  also have "\<bar>p\<bar> + t + w \<le> \<bar>p\<bar> + t + (\<bar>p\<bar> + t)" using ww by (rule add_left_mono)
  also have "\<dots> = 2 * (\<bar>p\<bar> + t)" by simp
  finally have sum_le2: "\<bar>a + e\<bar> \<le> 2 * (\<bar>p\<bar> + t)" .
  have "\<bar>p\<bar> + t \<le> 2 ^ 1000 + 2 ^ 1000" using pB tB by (rule add_mono)
  then have "2 * (\<bar>p\<bar> + t) \<le> 4 * 2 ^ 1000" by simp
  with sum_le2 have "\<bar>a + e\<bar> \<le> 4 * 2 ^ 1000" by (rule order_trans)
  then have "\<bar>a + e\<bar> < pow2 1023" using pow2_1023 big by simp
  from round_to_double_relative[OF on_grid_add[OF grid_a grid_e] this]
  obtain s where s: "round_to_double (a + e) = Finite s"
    and ds: "\<bar>s - (a + e)\<bar> \<le> \<bar>a + e\<bar> / 2 ^ 53" by blast
  have "\<bar>a + e\<bar> / 2 ^ 53 \<le> (2 * (\<bar>p\<bar> + t)) / 2 ^ 53"
    using sum_le2 by (intro divide_right_mono) simp_all
  also have "\<dots> = 2 * w" by (simp add: w_def)
  finally have ds': "\<bar>s - (a + e)\<bar> \<le> 2 * w" using ds by linarith
  have "s - (p + t) = (s - (a + e)) + ((a - p) + (e - t))" by simp
  then have "\<bar>s - (p + t)\<bar> \<le> \<bar>s - (a + e)\<bar> + \<bar>(a - p) + (e - t)\<bar>"
    by (simp only: abs_triangle_ineq)
  moreover have "\<bar>(a - p) + (e - t)\<bar> \<le> \<bar>a - p\<bar> + \<bar>e - t\<bar>" by (rule abs_triangle_ineq)
  ultimately have "\<bar>s - (p + t)\<bar> \<le> \<bar>s - (a + e)\<bar> + (\<bar>a - p\<bar> + \<bar>e - t\<bar>)" by linarith
  with ds' dsum w0 have "\<bar>s - (p + t)\<bar> \<le> 4 * w" by linarith
  also have "4 * w = (\<bar>p\<bar> + t) / 2 ^ 51" by (simp add: w_def)
  finally have total: "\<bar>s - (p + t)\<bar> \<le> (\<bar>p\<bar> + t) / 2 ^ 51" .
  have add: "int_add_float prior (Finite e) = Inr (Finite s)"
    using conv s by (simp add: int_add_float_def)
  have "float_sub now start = Finite e" using e by (simp add: float_sub_def t_def)
  moreover have "\<bar>e - t\<bar> \<le> t / 2 ^ 53" using de t0 by simp
  ultimately show ?thesis using e0 add total unfolding t_def p_def by blast
qed

lemma py_print_refused:
  assumes "\<not> stream_closed out" "\<not> device_ok out"
    and "buffer_size out < buffered_chars (pending out) + length line + 1"
  shows "py_print out line = Inl OSError"
  using assms by (simp add: py_print_def)

section \<open>The shared record files: the claims\<close>

text \<open>
  Claim C2. The claim as the specification has it: for every job id and every address,
  a read of the address record after \<open>write_file\<close> returns exactly the address that
  was written, and a read before any write finds nothing. The code strips what it
  reads, so the statement holds for the addresses that stripping and the newline
  translation of a text file leave alone: for every job id and every non-empty address
  that neither starts nor ends with whitespace and holds no carriage return,
  \<open>poll_file\<close> (with a positive timeout) on the store that \<open>write_file\<close> has left
  returns exactly that address, at once; before the write, with the file absent, a
  round of the poll finds nothing.
\<close>

theorem write_then_poll_returns_address:
  assumes "address \<noteq> []" "\<not> isspace (hd address)" "\<not> isspace (last address)"
    and "CR \<notin> set address"
    and "0 < timeout"
    and "files (ADDR_FILE env) = None"
    and "store now = write_file files (ADDR_FILE env) address"
  shows "poll_once files (ADDR_FILE env) = None \<and>
         poll_file store (ADDR_FILE env) timeout interval now = Some (Inr address, now)"
proof
  show "poll_once files (ADDR_FILE env) = None"
    using assms(6) by (rule poll_once_absent)
  have "poll_once (store now) (ADDR_FILE env) = Some address"
    using assms(1-4) by (simp add: assms(7) poll_once_written)
  with assms(5) show "poll_file store (ADDR_FILE env) timeout interval now = Some (Inr address, now)"
    by (rule poll_file_found)
qed

theorem write_then_poll_returns_address_witness:
  "poll_once Map.empty (ADDR_FILE [''SLURM_JOB_ID'' \<mapsto> ''42'']) = None \<and>
   poll_file (\<lambda>t. write_file Map.empty (ADDR_FILE [''SLURM_JOB_ID'' \<mapsto> ''42'']) ''10.0.0.1:6379'')
     (ADDR_FILE [''SLURM_JOB_ID'' \<mapsto> ''42'']) 120 2 0 = Some (Inr ''10.0.0.1:6379'', 0)"
  using write_then_poll_returns_address
    [of "''10.0.0.1:6379''" 120 Map.empty "[''SLURM_JOB_ID'' \<mapsto> ''42'']"
        "\<lambda>t. write_file Map.empty (ADDR_FILE [''SLURM_JOB_ID'' \<mapsto> ''42'']) ''10.0.0.1:6379''" 0 2]
  by (simp add: isspace_def)

text \<open>
  The claim as stated fails for an address that ends with a line feed: the worker reads
  it back without the line feed.
\<close>

theorem poll_strips_written_address_counterexample:
  "poll_file (\<lambda>t. write_file Map.empty (ADDR_FILE Map.empty) (''10.0.0.1:6379'' @ [LF]))
     (ADDR_FILE Map.empty) 120 2 0 = Some (Inr ''10.0.0.1:6379'', 0) \<and>
   ''10.0.0.1:6379'' \<noteq> ''10.0.0.1:6379'' @ [LF]"
proof -
  have "poll_once (write_file Map.empty (ADDR_FILE Map.empty) (''10.0.0.1:6379'' @ [LF]))
          (ADDR_FILE Map.empty) = Some ''10.0.0.1:6379''"
    by (simp add: poll_once_def write_file_def strip_def isspace_def)
  then show ?thesis by (simp add: poll_file_found)
qed

text \<open>
  Claim C3. The claim as the specification has it: when the address record never
  appears within the worker's 120 seconds, the polling read raises a timeout error that
  ends the worker with an exit status that is neither 0 nor the resume code. In the
  code the first \<open>poll_file\<close> of \<open>run_worker\<close> (timeout 120, interval 2) raises
  \<open>TimeoutError\<close>, nothing catches it, and the interpreter ends the process with
  status 1, which is non-zero: that is the statement proved. Status 1 is also the value
  of the resume code, so the exit status does not tell the two apart.
\<close>

theorem worker_address_timeout:
  assumes "\<forall>t. now \<le> t \<and> t < now + 120 \<longrightarrow> store t (ADDR_FILE env) = None"
  shows "run_worker env store ray_init now = Some (Inl TimeoutError) \<and>
         exit_status (Inl TimeoutError :: exn + unit) = 1"
proof -
  from assms
  have "\<forall>t. now \<le> t \<and> t < now + 120 \<longrightarrow> poll_once (store t) (ADDR_FILE env) = None"
    by (simp add: poll_once_absent)
  then show ?thesis by (simp add: run_worker_times_out)
qed

theorem worker_address_timeout_witness:
  "run_worker Map.empty (\<lambda>t. Map.empty) (\<lambda>a. Inr 0) 0 = Some (Inl TimeoutError) \<and>
   exit_status (Inl TimeoutError :: exn + unit) = 1"
  using worker_address_timeout[of 0 "\<lambda>t. Map.empty" Map.empty "\<lambda>a. Inr 0"] by simp

text \<open>
  With a store that stays empty the worker ends with \<open>TimeoutError\<close>, and the exit
  status of that is the resume code itself.
\<close>

theorem worker_timeout_status_counterexample:
  "run_worker Map.empty (\<lambda>t. Map.empty) (\<lambda>a. Inr 0) 0 = Some (Inl TimeoutError) \<and>
   exit_status (Inl TimeoutError :: exn + unit) = resume_code"
  by (simp add: run_worker_times_out poll_once_absent resume_code_def)

text \<open>
  Claim C9. \<open>poll_file\<close> never returns the empty string: a value it returns is
  non-empty, is the stripped text of the file at the time of the return, and neither
  starts nor ends with whitespace; and a file that exists but is empty is treated as
  an absent file, the two stores giving the same call of \<open>poll_file\<close> (the same
  result, or no return for either).
\<close>

theorem poll_file_result_stripped_nonempty:
  "(poll_file store path timeout interval now = Some (Inr c, t) \<longrightarrow>
      c \<noteq> [] \<and> \<not> isspace (hd c) \<and> \<not> isspace (last c) \<and>
      (\<exists>raw. store t path = Some raw \<and> c = strip (universal_newlines raw))) \<and>
   poll_file (\<lambda>u. (store u)(path \<mapsto> [])) path timeout interval now =
   poll_file (\<lambda>u. (store u)(path := None)) path timeout interval now"
proof (intro conjI impI)
  assume "poll_file store path timeout interval now = Some (Inr c, t)"
  then have "poll_post store path (now + timeout) now (Inr c, t)"
    unfolding poll_file_def by (rule poll_loop_post)
  then have "poll_once (store t) path = Some c" by (simp add: poll_post_def)
  then have ne: "c \<noteq> []"
    and raw: "\<exists>raw. store t path = Some raw \<and> c = strip (universal_newlines raw)"
    by (auto dest: poll_once_Some)
  show "c \<noteq> []" by (rule ne)
  show "\<exists>raw. store t path = Some raw \<and> c = strip (universal_newlines raw)" by (rule raw)
  from raw ne show "\<not> isspace (hd c)" by (auto simp: strip_hd)
  from raw ne show "\<not> isspace (last c)" by (auto simp: strip_last)
next
  have "\<forall>u. poll_once ((store u)(path \<mapsto> [])) path = poll_once ((store u)(path := None)) path"
    by (simp add: poll_once_def strip_def)
  then show "poll_file (\<lambda>u. (store u)(path \<mapsto> [])) path timeout interval now =
             poll_file (\<lambda>u. (store u)(path := None)) path timeout interval now"
    unfolding poll_file_def by (rule poll_loop_cong)
qed

theorem poll_file_result_stripped_nonempty_witness:
  "poll_file (\<lambda>u. [''f'' \<mapsto> '' head:6379 '' @ [LF]]) ''f'' 120 2 0 = Some (Inr ''head:6379'', 0) \<and>
   ''head:6379'' \<noteq> [] \<and> \<not> isspace (hd ''head:6379'') \<and> \<not> isspace (last ''head:6379'') \<and>
   (\<exists>raw. [''f'' \<mapsto> '' head:6379 '' @ [LF]] ''f'' = Some raw \<and>
       ''head:6379'' = strip (universal_newlines raw)) \<and>
   poll_file (\<lambda>u. [''f'' \<mapsto> '' head:6379 '' @ [LF]](''f'' \<mapsto> [])) ''f'' 120 2 0 =
   poll_file (\<lambda>u. [''f'' \<mapsto> '' head:6379 '' @ [LF]](''f'' := None)) ''f'' 120 2 0"
proof -
  have found: "poll_file (\<lambda>u. [''f'' \<mapsto> '' head:6379 '' @ [LF]]) ''f'' 120 2 0
      = Some (Inr ''head:6379'', 0)"
    by (rule poll_file_found) (simp_all add: poll_once_def strip_def isspace_def)
  note inst = poll_file_result_stripped_nonempty
    [of "\<lambda>u. [''f'' \<mapsto> '' head:6379 '' @ [LF]]" "''f''" 120 2 0 "''head:6379''" 0]
  from inst found show ?thesis by blast
qed

section \<open>The topology check: the claims\<close>

text \<open>
  Claim C5. For every gathered list of hostnames (one for each rank, so not empty),
  rank 0 computes the host count as the number of distinct hostnames and calls the run
  multi-node exactly when the count is above 1. When all hostnames are the same the
  count is 1, the run is not multi-node and the function prints its warning and returns
  (no exception). When the hostnames are those of half as many distinct hosts, the
  count is half the length of the list. The head of the Ray cluster decides the same
  way: multi-node exactly when the alive nodes have more than one distinct name.
\<close>

theorem host_count_is_number_of_distinct_hosts:
  assumes "gathered \<noteq> []"
  shows "\<exists>r out. check_topology 0 gathered env = Inr (Some r, out) \<and>
           unique_hosts r = card (set gathered) \<and>
           is_multi_node r = (1 < unique_hosts r) \<and>
           ((\<forall>h\<in>set gathered. h = hd gathered) \<longrightarrow>
              unique_hosts r = 1 \<and> \<not> is_multi_node r \<and>
              ''  WARNING: Single-node allocation (4 GPUs on 1 node)'' \<in> set out) \<and>
           (\<forall>ds. distinct ds \<and> set ds = set gathered \<and> length gathered = 2 * length ds \<longrightarrow>
              unique_hosts r = length gathered div 2) \<and>
           head_is_multi_node nodes =
             (1 < card ((\<lambda>n. case node_name n of None \<Rightarrow> ''unknown'' | Some h \<Rightarrow> h)
                         ` {n \<in> set nodes. alive n}))"
proof -
  from assms obtain h rest where g: "gathered = h # rest" by (cases gathered) auto
  let ?r = "\<lparr>unique_hosts = card (set gathered),
                hostnames = sort (remdups gathered),
                is_multi_node = (1 < card (set gathered)),
                master_addr = environ_get env ''MASTER_ADDR'' ''NOT SET'',
                master_addr_correct =
                  (str_in (environ_get env ''MASTER_ADDR'' ''NOT SET'') h \<or>
                   str_in h (environ_get env ''MASTER_ADDR'' ''NOT SET''))\<rparr>"
  obtain out where run: "check_topology 0 gathered env = Inr (Some ?r, out)"
    and warn: "\<not> 1 < card (set gathered) \<Longrightarrow>
               ''  WARNING: Single-node allocation (4 GPUs on 1 node)'' \<in> set out"
    unfolding g check_topology_rank0 by simp
  have same: "card (set gathered) = 1" if "\<forall>h\<in>set gathered. h = hd gathered"
    using assms that by (rule card_all_same)
  have half: "card (set gathered) = length gathered div 2"
    if "distinct ds \<and> set ds = set gathered \<and> length gathered = 2 * length ds" for ds
  proof -
    from that have "card (set gathered) = length ds" by (metis distinct_card)
    with that show ?thesis by simp
  qed
  have head: "head_is_multi_node nodes =
      (1 < card ((\<lambda>n. case node_name n of None \<Rightarrow> ''unknown'' | Some h \<Rightarrow> h)
                  ` {n \<in> set nodes. alive n}))"
    by (simp add: head_is_multi_node_def node_hostnames_def length_remdups_card_conv)
  show ?thesis
  proof (intro exI conjI)
    show "check_topology 0 gathered env = Inr (Some ?r, out)" by (rule run)
    show "unique_hosts ?r = card (set gathered)" by simp
    show "is_multi_node ?r = (1 < unique_hosts ?r)" by simp
    show "(\<forall>h\<in>set gathered. h = hd gathered) \<longrightarrow>
              unique_hosts ?r = 1 \<and> \<not> is_multi_node ?r \<and>
              ''  WARNING: Single-node allocation (4 GPUs on 1 node)'' \<in> set out"
      using same warn by simp
    show "\<forall>ds. distinct ds \<and> set ds = set gathered \<and> length gathered = 2 * length ds \<longrightarrow>
              unique_hosts ?r = length gathered div 2"
      using half by simp
    show "head_is_multi_node nodes =
      (1 < card ((\<lambda>n. case node_name n of None \<Rightarrow> ''unknown'' | Some h \<Rightarrow> h)
                  ` {n \<in> set nodes. alive n}))" by (rule head)
  qed
qed

theorem host_count_is_number_of_distinct_hosts_witness:
  "(\<exists>r out. check_topology 0 [''udc-an26-1'', ''udc-an26-1'', ''udc-an26-1'', ''udc-an26-1''] Map.empty
        = Inr (Some r, out) \<and> unique_hosts r = 1 \<and> \<not> is_multi_node r \<and>
      ''  WARNING: Single-node allocation (4 GPUs on 1 node)'' \<in> set out) \<and>
   (\<exists>r out. check_topology 0 [''udc-an26-1'', ''udc-an26-1'', ''udc-an26-7'', ''udc-an26-7''] Map.empty
        = Inr (Some r, out) \<and> unique_hosts r = 2 \<and> is_multi_node r)"
proof
  have same: "\<forall>h\<in>set [''udc-an26-1'', ''udc-an26-1'', ''udc-an26-1'', ''udc-an26-1''].
      h = hd [''udc-an26-1'', ''udc-an26-1'', ''udc-an26-1'', ''udc-an26-1'']" by simp
  from host_count_is_number_of_distinct_hosts
    [of "[''udc-an26-1'', ''udc-an26-1'', ''udc-an26-1'', ''udc-an26-1'']" Map.empty "[]"] same
  show "\<exists>r out. check_topology 0 [''udc-an26-1'', ''udc-an26-1'', ''udc-an26-1'', ''udc-an26-1''] Map.empty
        = Inr (Some r, out) \<and> unique_hosts r = 1 \<and> \<not> is_multi_node r \<and>
      ''  WARNING: Single-node allocation (4 GPUs on 1 node)'' \<in> set out"
    by blast
next
  let ?g = "[''udc-an26-1'', ''udc-an26-1'', ''udc-an26-7'', ''udc-an26-7'']"
  have half: "distinct [''udc-an26-1'', ''udc-an26-7''] \<and>
       set [''udc-an26-1'', ''udc-an26-7''] = set ?g \<and>
       length ?g = 2 * length [''udc-an26-1'', ''udc-an26-7'']" by auto
  have two: "length ?g div 2 = 2" by simp
  from host_count_is_number_of_distinct_hosts[of ?g Map.empty "[]"]
  obtain r out where r: "check_topology 0 ?g Map.empty = Inr (Some r, out)"
    "is_multi_node r = (1 < unique_hosts r)"
    "\<forall>ds. distinct ds \<and> set ds = set ?g \<and> length ?g = 2 * length ds \<longrightarrow>
              unique_hosts r = length ?g div 2"
    by blast
  from r(3) half have "unique_hosts r = length ?g div 2" by blast
  with two have "unique_hosts r = 2" by simp
  with r show "\<exists>r out. check_topology 0 ?g Map.empty = Inr (Some r, out) \<and>
      unique_hosts r = 2 \<and> is_multi_node r" by auto
qed

text \<open>
  Claim C6. The claim as the specification has it: the head-address check passes
  exactly when \<^verbatim>\<open>MASTER_ADDR\<close> matches one of the hostnames the ranks reported. The
  code compares with the hostname of rank 0 only (``Verify MASTER_ADDR matches first
  node''), and by containment: the check passes exactly when \<^verbatim>\<open>MASTER_ADDR\<close> occurs
  inside the hostname of rank 0 or the hostname of rank 0 occurs inside
  \<^verbatim>\<open>MASTER_ADDR\<close>.
\<close>

theorem master_addr_check_compares_rank0_host:
  "\<exists>r out. check_topology 0 (rank0_host # rest) env = Inr (Some r, out) \<and>
      master_addr r = environ_get env ''MASTER_ADDR'' ''NOT SET'' \<and>
      (master_addr_correct r \<longleftrightarrow>
         (\<exists>p s. rank0_host = p @ master_addr r @ s) \<or>
         (\<exists>p s. master_addr r = p @ rank0_host @ s))"
  unfolding check_topology_rank0 by (simp add: str_in_iff)

theorem master_addr_check_compares_rank0_host_witness:
  "\<exists>r out. check_topology 0 [''udc-an26-1'', ''udc-an26-7''] [''MASTER_ADDR'' \<mapsto> ''udc-an26-1''] =
      Inr (Some r, out) \<and> master_addr r = ''udc-an26-1'' \<and> master_addr_correct r"
proof -
  from master_addr_check_compares_rank0_host
    [of "''udc-an26-1''" "[''udc-an26-7'']" "[''MASTER_ADDR'' \<mapsto> ''udc-an26-1'']"]
  obtain r out where run: "check_topology 0 [''udc-an26-1'', ''udc-an26-7'']
        [''MASTER_ADDR'' \<mapsto> ''udc-an26-1''] = Inr (Some r, out)"
    and addr: "master_addr r = environ_get [''MASTER_ADDR'' \<mapsto> ''udc-an26-1''] ''MASTER_ADDR'' ''NOT SET''"
    and iff: "master_addr_correct r \<longleftrightarrow>
         (\<exists>p s. ''udc-an26-1'' = p @ master_addr r @ s) \<or>
         (\<exists>p s. master_addr r = p @ ''udc-an26-1'' @ s)"
    by blast
  from addr have m: "master_addr r = ''udc-an26-1''" by (simp add: environ_get_def)
  have "''udc-an26-1'' = [] @ ''udc-an26-1'' @ []" by simp
  then have "\<exists>p s. ''udc-an26-1'' = p @ ''udc-an26-1'' @ s" by blast
  with iff m have "master_addr_correct r" by simp
  with run m show ?thesis by blast
qed

text \<open>
  The claim as stated fails when \<^verbatim>\<open>MASTER_ADDR\<close> names the host of another rank:
  it is one of the reported hostnames, and the check fails.
\<close>

theorem master_addr_other_host_counterexample:
  "check_topology 0 [''node1'', ''node2''] [''MASTER_ADDR'' \<mapsto> ''node2''] =
     Inr (Some \<lparr>unique_hosts = 2, hostnames = [''node1'', ''node2''], is_multi_node = True,
                master_addr = ''node2'', master_addr_correct = False\<rparr>,
          [''  MASTER_ADDR=node2 vs rank0_host=node1: FAILED'',
           ''  Multi-node allocation: PASSED (2 nodes)'']) \<and>
   ''node2'' \<in> set [''node1'', ''node2'']"
  by code_simp

text \<open>
  Claim C8. In the self-report loop, for ranks \<open>s < r\<close>, rank \<open>r\<close> does not print
  its line before rank \<open>s\<close> has printed its own and a barrier has been crossed after
  that: under every schedule of the ranks, whatever stands in the shared log before the
  report of rank \<open>r\<close> contains the report of rank \<open>s\<close> followed by a crossing.
\<close>

theorem self_report_waits_for_lower_ranks:
  assumes "shared_log (run_ranks world_size schedule) = before @ Report r # after"
    and "s < r"
  shows "\<exists>a b c. before = a @ Report s # b @ Crossed # c"
proof -
  from ranks_inv_order[OF ranks_inv_run assms]
  have "before = rounds_log 0 s @ Report s # [] @ Crossed # rounds_log (Suc s) r" by simp
  then show ?thesis by blast
qed

theorem self_report_waits_for_lower_ranks_witness:
  "shared_log (run_ranks 2 [1, 0, 1]) = [Report 0, Crossed] @ Report 1 # [] \<and>
   (\<exists>a b c. [Report 0, Crossed] = a @ Report 0 # b @ Crossed # c)"
proof -
  have run: "shared_log (run_ranks 2 [1, 0, 1]) = [Report 0, Crossed] @ Report 1 # []"
    by code_simp
  have "(0::nat) < 1" by simp
  from self_report_waits_for_lower_ranks[OF run this] run show ?thesis by blast
qed

section \<open>The entry point: the claims\<close>

text \<open>
  Claim C10. The claim as the specification has it: a process launched without
  \<^verbatim>\<open>SLURM_PROCID\<close> defaults its rank to 0 and takes the head path. The rank does
  default to 0 and the worker path is never taken; the head path is taken when the
  other number the module reads at start-up, \<^verbatim>\<open>SLURM_GPUS_ON_NODE\<close> (default 2),
  is a valid integer, for otherwise the module raises before the entry point.
\<close>

theorem unset_procid_takes_head_path:
  assumes "env ''SLURM_PROCID'' = None"
  shows "SLURM_PROCID env = Inr 0 \<and>
         coordinator_main env \<noteq> Inr RunWorker \<and>
         (NUM_GPUS_PER_NODE env = Inr gpus \<longrightarrow> coordinator_main env = Inr RunHead)"
proof -
  from assms have "SLURM_PROCID env = Inr 0"
    by (simp add: SLURM_PROCID_def environ_get_def py_int_zero)
  then show ?thesis
    by (auto simp: coordinator_main_def split: sum.splits)
qed

theorem unset_procid_takes_head_path_witness:
  "SLURM_PROCID Map.empty = Inr 0 \<and> coordinator_main Map.empty \<noteq> Inr RunWorker \<and>
   NUM_GPUS_PER_NODE Map.empty = Inr 2 \<and> coordinator_main Map.empty = Inr RunHead"
proof -
  have "NUM_GPUS_PER_NODE Map.empty = Inr 2" by code_simp
  with unset_procid_takes_head_path[of Map.empty 2] show ?thesis by simp
qed

text \<open>
  With \<^verbatim>\<open>SLURM_PROCID\<close> unset and a \<^verbatim>\<open>SLURM_GPUS_ON_NODE\<close> that is not a number
  the process ends with \<open>ValueError\<close> and takes neither path.
\<close>

theorem unset_procid_bad_gpu_count_counterexample:
  "[''SLURM_GPUS_ON_NODE'' \<mapsto> ''a100:2''] ''SLURM_PROCID'' = None \<and>
   coordinator_main [''SLURM_GPUS_ON_NODE'' \<mapsto> ''a100:2''] = Inl ValueError"
  by code_simp

section \<open>The segment and its signals: the claims\<close>

text \<open>
  Claim C1. The claim as the specification has it: for every prior elapsed value and
  every time \<open>t\<close> after the start of the segment at which \<^verbatim>\<open>SIGUSR1\<close> or
  \<^verbatim>\<open>SIGTERM\<close> arrives, the handler reports the segment time within a small tolerance
  of \<open>t\<close> and a total equal to the prior value plus the segment time, and the process
  exits with the resume code, never 0. The code computes in double precision, prints
  without decimals, and leaves its exit status to standard output. What holds: let
  standard output be open and writable, the two clock readings be doubles, the signal
  arrive at or after the start of the segment (the handler reads the clock as it is
  entered), and the segment time \<open>t = now - segment_start\<close> and the size of the prior
  value be at most \<open>2 ^ 1000\<close>. Then the handler prints the segment time as an integer
  within \<open>1 / 2 + t / 2 ^ 53\<close> of \<open>t\<close>; it prints the total as the integer nearest to
  the size of the double total \<open>s\<close>, with the sign of \<open>s\<close>, where \<open>s\<close> is within
  \<open>(\<bar>prior\<bar> + t) / 2 ^ 51\<close> of the prior value plus \<open>t\<close>; both lines reach the
  device after what was buffered before; and the process exits with the resume code,
  which is not 0. With a prior value of 300 and a signal 50 seconds into the segment the
  total printed is 350.
\<close>

theorem signal_reports_elapsed_and_exits_with_resume_code:
  assumes "\<not> stream_closed out" and "device_ok out"
    and "is_double now" and "is_double (segment_start seg)"
    and "segment_start seg \<le> now"
    and "now - segment_start seg \<le> 2 ^ 1000"
    and "\<bar>of_int (total_elapsed seg) :: rat\<bar> \<le> 2 ^ 1000"
  shows "\<exists>n k s out'.
           on_signal seg sig now out = (resume_code, out') \<and>
           written out' = written out @ pending out @
              [''Received signal '' @ str_int (signal_number sig) @ '' after ''
                 @ str_int n @ ''s in this segment'',
               ''Total elapsed: '' @ (if s < 0 then ''-'' else []) @ str_int k
                 @ ''s / '' @ str_int (total_requested seg) @ ''s''] \<and>
           pending out' = [] \<and>
           \<bar>of_int n - (now - segment_start seg)\<bar>
              \<le> 1 / 2 + (now - segment_start seg) / 2 ^ 53 \<and>
           \<bar>of_int k - \<bar>s\<bar>\<bar> \<le> 1 / 2 \<and>
           \<bar>s - (of_int (total_elapsed seg) + (now - segment_start seg))\<bar>
              \<le> (\<bar>of_int (total_elapsed seg)\<bar> + (now - segment_start seg)) / 2 ^ 51 \<and>
           resume_code \<noteq> 0"
proof -
  let ?t = "now - segment_start seg"
  from handler_arithmetic[OF assms(3,4,5,6,7)]
  obtain e s where e: "float_sub now (segment_start seg) = Finite e" and e0: "0 \<le> e"
    and de: "\<bar>e - ?t\<bar> \<le> ?t / 2 ^ 53"
    and add: "int_add_float (total_elapsed seg) (Finite e) = Inr (Finite s)"
    and ds: "\<bar>s - (of_int (total_elapsed seg) + ?t)\<bar>
               \<le> (\<bar>of_int (total_elapsed seg)\<bar> + ?t) / 2 ^ 51"
    by blast
  let ?n = "round_half_even e"
  let ?k = "round_half_even \<bar>s\<bar>"
  let ?l1 = "''Received signal '' @ str_int (signal_number sig) @ '' after ''
                 @ str_int ?n @ ''s in this segment''"
  let ?l2 = "''Total elapsed: '' @ (if s < 0 then ''-'' else []) @ str_int ?k
                 @ ''s / '' @ str_int (total_requested seg) @ ''s''"
  have f1: "format_0f (Finite e) = str_int ?n" using e0 by (rule format_0f_nonneg)
  have f2: "format_0f (Finite s) = (if s < 0 then ''-'' else []) @ str_int ?k"
    by (rule format_0f_sign)
  from py_print_accepts[OF assms(1,2), of ?l1]
  obtain out1 where p1: "py_print out ?l1 = Inr out1"
    and o1: "\<not> stream_closed out1" "device_ok out1"
    and w1: "written out1 @ pending out1 = written out @ pending out @ [?l1]" by blast
  from py_print_accepts[OF o1, of ?l2]
  obtain out2 where p2: "py_print out1 ?l2 = Inr out2"
    and o2: "\<not> stream_closed out2" "device_ok out2"
    and w2: "written out2 @ pending out2 = written out1 @ pending out1 @ [?l2]" by blast
  from flush_at_exit_accepts[OF o2]
  obtain out3 where fl: "flush_at_exit out2 = (True, out3)"
    and w3: "written out3 = written out2 @ pending out2" "pending out3 = []" by blast
  have hs: "handle_signal seg (signal_number sig) now out = (SystemExit 1, out2)"
    unfolding handle_signal_def Let_def e f1 add f2
    by (simp only: p1 sum.case f2 append_assoc p2)
  have run: "on_signal seg sig now out = (resume_code, out3)"
    by (simp add: on_signal_def hs process_exit_def fl resume_code_def)
  have shown: "written out3 = written out @ pending out @ [?l1, ?l2]"
    using w1 w2 w3 by simp
  have "\<bar>of_int ?n - e\<bar> \<le> 1 / 2" by (rule round_half_even_near)
  with de have n: "\<bar>of_int ?n - ?t\<bar> \<le> 1 / 2 + ?t / 2 ^ 53" by linarith
  have k: "\<bar>of_int ?k - \<bar>s\<bar>\<bar> \<le> 1 / 2" by (rule round_half_even_near)
  have "resume_code \<noteq> 0" by (simp add: resume_code_def)
  with run shown w3(2) n k ds show ?thesis by blast
qed

theorem signal_reports_elapsed_and_exits_with_resume_code_witness:
  "start_segment [''RV_TOTAL_ELAPSED'' \<mapsto> ''300''] 1000 =
     Inr \<lparr>total_elapsed = 300, total_requested = 600, segment_start = 1000\<rparr> \<and>
   on_signal \<lparr>total_elapsed = 300, total_requested = 600, segment_start = 1000\<rparr> SIGTERM 1050
      \<lparr>stream_closed = False, device_ok = True, buffer_size = 8192,
       pending = [], written = []\<rparr> =
     (1, \<lparr>stream_closed = False, device_ok = True, buffer_size = 8192, pending = [],
          written = [''Received signal 15 after 50s in this segment'',
                     ''Total elapsed: 350s / 600s'']\<rparr>) \<and>
   fst (on_signal \<lparr>total_elapsed = 300, total_requested = 600, segment_start = 1000\<rparr>
          SIGTERM 1050
          \<lparr>stream_closed = False, device_ok = True, buffer_size = 8192,
           pending = [], written = []\<rparr>) = resume_code \<and>
   resume_code \<noteq> 0"
proof -
  let ?seg = "\<lparr>total_elapsed = 300, total_requested = 600, segment_start = 1000\<rparr>"
  let ?out = "\<lparr>stream_closed = False, device_ok = True, buffer_size = 8192,
               pending = [], written = []\<rparr>"
  have h1: "\<not> stream_closed ?out" and h2: "device_ok ?out" by simp_all
  have h3: "is_double 1050" by code_simp
  have "is_double 1000" by code_simp
  then have h4: "is_double (segment_start ?seg)" by simp
  have h5: "segment_start ?seg \<le> 1050" by simp
  have h6: "1050 - segment_start ?seg \<le> 2 ^ 1000" by simp
  have h7: "\<bar>of_int (total_elapsed ?seg) :: rat\<bar> \<le> 2 ^ 1000" by simp
  from signal_reports_elapsed_and_exits_with_resume_code[OF h1 h2 h3 h4 h5 h6 h7, of SIGTERM]
  have "fst (on_signal ?seg SIGTERM 1050 ?out) = resume_code" and "resume_code \<noteq> 0"
    by auto
  moreover have "on_signal ?seg SIGTERM 1050 ?out =
     (1, \<lparr>stream_closed = False, device_ok = True, buffer_size = 8192, pending = [],
          written = [''Received signal 15 after 50s in this segment'',
                     ''Total elapsed: 350s / 600s'']\<rparr>)"
    by code_simp
  moreover have "start_segment [''RV_TOTAL_ELAPSED'' \<mapsto> ''300''] 1000 = Inr ?seg"
    by code_simp
  ultimately show ?thesis by blast
qed

text \<open>
  The claim as stated fails in three ways. With a prior value of 1 and a signal 2.5
  seconds into the segment the lines read 2s and 4s: the total printed is not the prior
  value plus the segment time printed. With a prior value of \<open>2 ^ 53 + 1\<close> and a signal
  2 seconds into the segment the total printed ends in 994, a whole second from the sum.
  With standard output open but refusing writes, the exit status is 120 and not the
  resume code.
\<close>

theorem signal_report_counterexample:
  "on_signal \<lparr>total_elapsed = 1, total_requested = 600, segment_start = 1000\<rparr> SIGTERM (2005 / 2)
      \<lparr>stream_closed = False, device_ok = True, buffer_size = 8192,
       pending = [], written = []\<rparr> =
     (1, \<lparr>stream_closed = False, device_ok = True, buffer_size = 8192, pending = [],
          written = [''Received signal 15 after 2s in this segment'',
                     ''Total elapsed: 4s / 600s'']\<rparr>) \<and>
   on_signal \<lparr>total_elapsed = 9007199254740993, total_requested = 600, segment_start = 1000\<rparr>
      SIGTERM 1002
      \<lparr>stream_closed = False, device_ok = True, buffer_size = 8192,
       pending = [], written = []\<rparr> =
     (1, \<lparr>stream_closed = False, device_ok = True, buffer_size = 8192, pending = [],
          written = [''Received signal 15 after 2s in this segment'',
                     ''Total elapsed: 9007199254740994s / 600s'']\<rparr>) \<and>
   on_signal \<lparr>total_elapsed = 300, total_requested = 600, segment_start = 1000\<rparr> SIGTERM 1050
      \<lparr>stream_closed = False, device_ok = False, buffer_size = 8192,
       pending = [], written = []\<rparr> =
     (120, \<lparr>stream_closed = False, device_ok = False, buffer_size = 8192,
            pending = [''Received signal 15 after 50s in this segment'',
                       ''Total elapsed: 350s / 600s''],
            written = []\<rparr>) \<and>
   resume_code = 1"
  by code_simp

text \<open>
  Claim C7. The claim as the specification has it: when the handler raises while it
  computes or emits the record, the process still exits with the resume code, which is
  guaranteed. The handler has no guard of its own. What holds: whatever ends the
  handler, the exit status of the signalled process is the resume code when the flush
  of standard output at exit goes through or is skipped, and 120 when that flush fails;
  it is never 0; and on a stream that is already closed, the example of the claim, the
  first \<^verbatim>\<open>print\<close> raises \<open>ValueError\<close>, nothing is written, and the exit status is
  the resume code.
\<close>

theorem failing_handler_exits_nonzero:
  "fst (on_signal seg sig now out) =
     (if fst (flush_at_exit (snd (handle_signal seg (signal_number sig) now out)))
      then resume_code else 120) \<and>
   fst (on_signal seg sig now out) \<noteq> 0 \<and>
   (stream_closed out \<longrightarrow>
      handle_signal seg (signal_number sig) now out = (ValueError, out) \<and>
      on_signal seg sig now out = (resume_code, out))"
proof -
  obtain e out' where hs: "handle_signal seg (signal_number sig) now out = (e, out')"
    by (cases "handle_signal seg (signal_number sig) now out") auto
  have st: "exit_status (Inl e :: exn + unit) = 1" using hs by (rule handle_signal_status)
  obtain ok out'' where fl: "flush_at_exit out' = (ok, out'')"
    by (cases "flush_at_exit out'") auto
  have run: "on_signal seg sig now out = (if ok then resume_code else 120, out'')"
    by (simp add: on_signal_def hs process_exit_def fl st resume_code_def)
  have 1: "fst (on_signal seg sig now out) =
     (if fst (flush_at_exit (snd (handle_signal seg (signal_number sig) now out)))
      then resume_code else 120)"
    by (simp add: run hs fl)
  have 2: "fst (on_signal seg sig now out) \<noteq> 0" by (simp add: run resume_code_def)
  have 3: "handle_signal seg (signal_number sig) now out = (ValueError, out) \<and>
      on_signal seg sig now out = (resume_code, out)" if "stream_closed out"
  proof -
    have h: "handle_signal seg (signal_number sig) now out = (ValueError, out)"
      using that by (rule handle_signal_closed)
    have "flush_at_exit out = (True, out)" using that by (simp add: flush_at_exit_def)
    then have "on_signal seg sig now out = (resume_code, out)"
      by (simp add: on_signal_def h process_exit_def resume_code_def)
    with h show ?thesis by simp
  qed
  from 1 2 3 show ?thesis by blast
qed

theorem failing_handler_exits_nonzero_witness:
  "handle_signal \<lparr>total_elapsed = 300, total_requested = 600, segment_start = 1000\<rparr>
      (signal_number SIGTERM) 1050
      \<lparr>stream_closed = True, device_ok = True, buffer_size = 8192,
       pending = [], written = []\<rparr> =
     (ValueError, \<lparr>stream_closed = True, device_ok = True, buffer_size = 8192,
                   pending = [], written = []\<rparr>) \<and>
   on_signal \<lparr>total_elapsed = 300, total_requested = 600, segment_start = 1000\<rparr> SIGTERM 1050
      \<lparr>stream_closed = True, device_ok = True, buffer_size = 8192,
       pending = [], written = []\<rparr> =
     (1, \<lparr>stream_closed = True, device_ok = True, buffer_size = 8192,
          pending = [], written = []\<rparr>)"
  using failing_handler_exits_nonzero
    [of "\<lparr>total_elapsed = 300, total_requested = 600, segment_start = 1000\<rparr>" SIGTERM 1050
        "\<lparr>stream_closed = True, device_ok = True, buffer_size = 8192,
          pending = [], written = []\<rparr>"]
  by (simp add: resume_code_def)

text \<open>
  The claim as stated fails when the buffer is full and the device refuses writes: the
  first \<^verbatim>\<open>print\<close> raises \<open>OSError\<close> and the process exits with 120.
\<close>

theorem failing_print_exits_120_counterexample:
  "handle_signal \<lparr>total_elapsed = 300, total_requested = 600, segment_start = 1000\<rparr>
      (signal_number SIGTERM) 1050
      \<lparr>stream_closed = False, device_ok = False, buffer_size = 8192,
       pending = [replicate 8191 (CHR ''.'')], written = []\<rparr> =
     (OSError, \<lparr>stream_closed = False, device_ok = False, buffer_size = 8192,
                pending = [replicate 8191 (CHR ''.'')], written = []\<rparr>) \<and>
   on_signal \<lparr>total_elapsed = 300, total_requested = 600, segment_start = 1000\<rparr> SIGTERM 1050
      \<lparr>stream_closed = False, device_ok = False, buffer_size = 8192,
       pending = [replicate 8191 (CHR ''.'')], written = []\<rparr> =
     (120, \<lparr>stream_closed = False, device_ok = False, buffer_size = 8192,
            pending = [replicate 8191 (CHR ''.'')], written = []\<rparr>) \<and>
   resume_code = 1"
proof -
  let ?seg = "\<lparr>total_elapsed = 300, total_requested = 600, segment_start = 1000\<rparr>"
  let ?out = "\<lparr>stream_closed = False, device_ok = False, buffer_size = 8192,
               pending = [replicate 8191 (CHR ''.'')], written = []\<rparr>"
  have full: "buffer_size ?out < buffered_chars (pending ?out) + length line + 1" for line
    by (simp add: buffered_chars_def)
  have refused: "py_print ?out line = Inl OSError" for line
    by (rule py_print_refused[OF _ _ full]) simp_all
  have h: "handle_signal ?seg (signal_number SIGTERM) 1050 ?out = (OSError, ?out)"
    unfolding handle_signal_def Let_def by (simp only: refused sum.case)
  have fl: "flush_at_exit ?out = (False, ?out)" by (simp add: flush_at_exit_def)
  have "on_signal ?seg SIGTERM 1050 ?out = process_exit (Inl OSError :: exn + unit) ?out"
    unfolding on_signal_def by (simp only: h prod.case)
  also have "\<dots> = (120, ?out)"
    unfolding process_exit_def by (simp only: fl prod.case if_False)
  finally have o: "on_signal ?seg SIGTERM 1050 ?out = (120, ?out)" .
  show ?thesis by (intro conjI) (rule h o resume_code_def)+
qed

end
